theory Spec2Isabelle
  imports Main
begin

section \<open>PropertyOwner (src/core/properties/propertyowner.cpp)\<close>

text \<open>
  Property objects live in a store indexed by their address (a \<open>Property*\<close>); a
  PropertyOwner holds addresses only, as the C++ vectors of raw pointers do.
\<close>

type_synonym PropertyPtr = nat
type_synonym OwnerPtr = nat
type_synonym ObserverPtr = nat

text \<open>
  Modelled from the spec: the enumeration InvalidationLevel (declared in a header that is
  not part of the sources). Valid is the lowest level; \<open>std::max\<close> compares the
  enumerators by their declaration order.
\<close>

datatype InvalidationLevel = Valid | InvalidOutput | InvalidResources

fun levelRank :: "InvalidationLevel \<Rightarrow> nat" where
  "levelRank Valid = 0"
| "levelRank InvalidOutput = 1"
| "levelRank InvalidResources = 2"

text \<open>\<open>std::max(a, b)\<close> is \<open>(a < b) ? b : a\<close>.\<close>

definition maxLevel :: "InvalidationLevel \<Rightarrow> InvalidationLevel \<Rightarrow> InvalidationLevel" where
  "maxLevel a b = (if levelRank a < levelRank b then b else a)"

datatype PropertySerializationMode = Default | All | NoSerialization

text \<open>
  The part of a Property object that PropertyOwner reads and writes: the identifiers, the
  value, what \<open>dynamic_cast<EventProperty*>\<close> and \<open>dynamic_cast<CompositeProperty*>\<close>
  answer, the owner backlink, the serialization mode and the validity flag that
  \<open>Property::setValid\<close> sets.
\<close>

record Property =
  getIdentifier :: string
  getClassIdentifier :: string
  val :: int
  isEventProperty :: bool
  isCompositeProperty :: bool
  owner :: "OwnerPtr option"
  serializationMode :: PropertySerializationMode
  isValidProp :: bool

record PropertyOwner =
  self :: OwnerPtr
  asProperty :: "PropertyPtr option"
  properties :: "PropertyPtr list"
  eventProperties :: "PropertyPtr list"
  compositeProperties :: "PropertyPtr list"
  ownedProperties :: "PropertyPtr list"
  invalidationLevel :: InvalidationLevel
  observers :: "ObserverPtr list"

datatype Notification =
    WillAddProperty OwnerPtr PropertyPtr nat
  | DidAddProperty PropertyPtr nat
  | WillRemoveProperty PropertyPtr nat
  | DidRemoveProperty OwnerPtr PropertyPtr nat

datatype Exception =
    IdentifierAlreadyUsed PropertyPtr PropertyPtr
  | AddToItself PropertyPtr
  | RangeException nat nat
  | ConnectionRefused "(nat \<times> nat) \<times> (nat \<times> nat)"

text \<open>
  The state a PropertyOwner method runs in: the owner object (\<open>this\<close>), the property
  store, the next unused address of the store, and the notifications delivered so far, each
  with the observer that received it.
\<close>

record Ctx =
  this :: PropertyOwner
  store :: "PropertyPtr \<Rightarrow> Property"
  nextFree :: PropertyPtr
  delivered :: "(ObserverPtr \<times> Notification) list"

definition notifyObservers :: "Notification \<Rightarrow> Ctx \<Rightarrow> Ctx" where
  "notifyObservers n c =
     c\<lparr>delivered := delivered c @ map (\<lambda>ob. (ob, n)) (observers (this c))\<rparr>"

text \<open>
  \<open>getPropertyByIdentifier(identifier)\<close> as every caller below uses it: the second
  argument \<open>recursiveSearch\<close> is left to its default, false, so only the loop over
  \<open>properties_\<close> runs and the first match is returned.
\<close>

definition getPropertyByIdentifier ::
  "(PropertyPtr \<Rightarrow> Property) \<Rightarrow> PropertyOwner \<Rightarrow> string \<Rightarrow> PropertyPtr option" where
  "getPropertyByIdentifier st own ident =
     find (\<lambda>p. getIdentifier (st p) = ident) (properties own)"

definition setOwner :: "PropertyPtr \<Rightarrow> OwnerPtr option \<Rightarrow> Ctx \<Rightarrow> Ctx" where
  "setOwner p ow c = c\<lparr>store := (store c)(p := (store c p)\<lparr>owner := ow\<rparr>)\<rparr>"

definition setSerializationMode :: "PropertyPtr \<Rightarrow> PropertySerializationMode \<Rightarrow> Ctx \<Rightarrow> Ctx" where
  "setSerializationMode p m c =
     c\<lparr>store := (store c)(p := (store c p)\<lparr>serializationMode := m\<rparr>)\<rparr>"

text \<open>\<open>insertPropertyImpl(it, property, owner)\<close>, the iterator given as an index.\<close>

definition insertPropertyImpl :: "nat \<Rightarrow> PropertyPtr \<Rightarrow> bool \<Rightarrow> Ctx \<Rightarrow> Ctx" where
  "insertPropertyImpl i property ownerFlag c =
     (let c1 = c\<lparr>this := (this c)\<lparr>properties :=
                  take i (properties (this c)) @ property # drop i (properties (this c))\<rparr>\<rparr>;
          c2 = setOwner property (Some (self (this c1))) c1;
          c3 = (if isEventProperty (store c2 property)
                then c2\<lparr>this := (this c2)\<lparr>eventProperties :=
                        eventProperties (this c2) @ [property]\<rparr>\<rparr>
                else c2);
          c4 = (if isCompositeProperty (store c3 property)
                then c3\<lparr>this := (this c3)\<lparr>compositeProperties :=
                        compositeProperties (this c3) @ [property]\<rparr>\<rparr>
                else c3)
      in if ownerFlag
         then setSerializationMode property All
                (c4\<lparr>this := (this c4)\<lparr>ownedProperties :=
                        ownedProperties (this c4) @ [property]\<rparr>\<rparr>)
         else c4)"

text \<open>
  \<open>insertProperty(index, property, owner)\<close>. A throw is the left summand, paired with
  the state at the moment of the throw.
\<close>

definition insertProperty ::
  "nat \<Rightarrow> PropertyPtr \<Rightarrow> bool \<Rightarrow> Ctx \<Rightarrow> (Exception + unit) \<times> Ctx" where
  "insertProperty index0 property ownerFlag c =
     (let index = (if index0 > length (properties (this c))
                   then length (properties (this c)) else index0)
      in case getPropertyByIdentifier (store c) (this c) (getIdentifier (store c property)) of
           Some existing \<Rightarrow> (Inl (IdentifierAlreadyUsed property existing), c)
         | None \<Rightarrow>
             if asProperty (this c) = Some property
             then (Inl (AddToItself property), c)
             else (Inr (),
                   notifyObservers (DidAddProperty property index)
                     (insertPropertyImpl index property ownerFlag
                        (notifyObservers
                           (WillAddProperty (self (this c)) property index) c))))"

text \<open>\<open>addProperty(property, owner)\<close> inserts at \<open>properties.size()\<close>.\<close>

definition addProperty :: "PropertyPtr \<Rightarrow> bool \<Rightarrow> Ctx \<Rightarrow> (Exception + unit) \<times> Ctx" where
  "addProperty property ownerFlag c =
     insertProperty (length (properties (this c))) property ownerFlag c"

text \<open>
  \<open>insertProperty(index, std::unique_ptr<Property>)\<close>: the raw-pointer overload with
  \<open>owner = false\<close>, then the serialization mode and the push onto
  \<open>ownedProperties_\<close>; an exception of the first call leaves before both.
\<close>

definition insertPropertyUnique ::
  "nat \<Rightarrow> PropertyPtr \<Rightarrow> Ctx \<Rightarrow> (Exception + PropertyPtr) \<times> Ctx" where
  "insertPropertyUnique index property c =
     (case insertProperty index property False c of
        (Inl e, c') \<Rightarrow> (Inl e, c')
      | (Inr _, c') \<Rightarrow>
          (let c2 = setSerializationMode property All c'
           in (Inr property,
               c2\<lparr>this := (this c2)\<lparr>ownedProperties :=
                     ownedProperties (this c2) @ [property]\<rparr>\<rparr>)))"

text \<open>
  \<open>removePropertyImpl(it)\<close>, the iterator given as an index (\<open>end()\<close> is the length).
  The result is the pointer returned: \<open>nullptr\<close> when nothing was found or when the
  property was owned, and so destroyed.
\<close>

definition removePropertyImpl :: "nat \<Rightarrow> Ctx \<Rightarrow> PropertyPtr option \<times> Ctx" where
  "removePropertyImpl i c =
     (if i < length (properties (this c))
      then (let prop = properties (this c) ! i;
                c1 = notifyObservers (WillRemoveProperty prop i) c;
                c2 = c1\<lparr>this := (this c1)\<lparr>
                        eventProperties := removeAll prop (eventProperties (this c1)),
                        compositeProperties := removeAll prop (compositeProperties (this c1))\<rparr>\<rparr>;
                c3 = setOwner prop None c2;
                c4 = c3\<lparr>this := (this c3)\<lparr>properties :=
                        take i (properties (this c3)) @ drop (Suc i) (properties (this c3))\<rparr>\<rparr>;
                c5 = notifyObservers (DidRemoveProperty (self (this c4)) prop i) c4;
                wasOwned = (prop \<in> set (ownedProperties (this c5)));
                c6 = c5\<lparr>this := (this c5)\<lparr>ownedProperties :=
                        removeAll prop (ownedProperties (this c5))\<rparr>\<rparr>
            in (if wasOwned then None else Some prop, c6))
      else (None, c))"

text \<open>\<open>removeProperty(size_t index)\<close>.\<close>

definition removePropertyAt ::
  "nat \<Rightarrow> Ctx \<Rightarrow> (Exception + PropertyPtr option) \<times> Ctx" where
  "removePropertyAt index c =
     (if index \<ge> length (properties (this c))
      then (Inl (RangeException index (length (properties (this c)))), c)
      else (case removePropertyImpl index c of (r, c') \<Rightarrow> (Inr r, c')))"

text \<open>The index \<open>std::find\<close> stops at: the length when nothing matches.\<close>

fun findIndex :: "('a \<Rightarrow> bool) \<Rightarrow> 'a list \<Rightarrow> nat" where
  "findIndex P [] = 0"
| "findIndex P (x # xs) = (if P x then 0 else Suc (findIndex P xs))"

text \<open>\<open>removeProperty(Property* property)\<close>.\<close>

definition removeProperty :: "PropertyPtr \<Rightarrow> Ctx \<Rightarrow> PropertyPtr option \<times> Ctx" where
  "removeProperty property c =
     removePropertyImpl (findIndex (\<lambda>p. p = property) (properties (this c))) c"

text \<open>
  \<open>move(property, newIndex)\<close>. After the erase the vector has one element less, and
  \<open>properties_.insert(properties_.begin() + newIndex, property)\<close> is defined only for
  a \<open>newIndex\<close> up to that size; beyond it the behaviour of the C++ is undefined, which
  is the result \<open>None\<close>. A property that is not a member is reported by \<open>false\<close>
  whatever the index.
\<close>

definition move :: "PropertyPtr \<Rightarrow> nat \<Rightarrow> Ctx \<Rightarrow> (bool \<times> Ctx) option" where
  "move property newIndex c =
     (let index = findIndex (\<lambda>p. p = property) (properties (this c))
      in if index < length (properties (this c))
         then (let c1 = notifyObservers (WillRemoveProperty property index) c;
                   c2 = c1\<lparr>this := (this c1)\<lparr>properties :=
                          take index (properties (this c1)) @
                          drop (Suc index) (properties (this c1))\<rparr>\<rparr>;
                   c3 = notifyObservers (DidRemoveProperty (self (this c2)) property index) c2;
                   c4 = notifyObservers (WillAddProperty (self (this c3)) property newIndex) c3
               in if newIndex > length (properties (this c4)) then None
                  else (let c5 = c4\<lparr>this := (this c4)\<lparr>properties :=
                                   take newIndex (properties (this c4)) @
                                   property # drop newIndex (properties (this c4))\<rparr>\<rparr>
                        in Some (True, notifyObservers (DidAddProperty property newIndex) c5)))
         else Some (False, c))"

text \<open>
  Modelled from the spec: \<open>Property::setValid\<close>, which the Property class (not part of
  the sources) defines; it marks the property valid.
\<close>

definition setValidProperty :: "PropertyPtr \<Rightarrow> Ctx \<Rightarrow> Ctx" where
  "setValidProperty p c = c\<lparr>store := (store c)(p := (store c p)\<lparr>isValidProp := True\<rparr>)\<rparr>"

text \<open>\<open>PropertyOwner::setValid()\<close>: every element of \<open>properties_\<close>, then the owner.\<close>

definition setValid :: "Ctx \<Rightarrow> Ctx" where
  "setValid c =
     (let c1 = fold setValidProperty (properties (this c)) c
      in c1\<lparr>this := (this c1)\<lparr>invalidationLevel := Valid\<rparr>\<rparr>)"

definition getInvalidationLevel :: "Ctx \<Rightarrow> InvalidationLevel" where
  "getInvalidationLevel c = invalidationLevel (this c)"

text \<open>\<open>invalidate(level, Property*)\<close>; the property argument is unused.\<close>

definition invalidate :: "InvalidationLevel \<Rightarrow> Ctx \<Rightarrow> Ctx" where
  "invalidate level c =
     c\<lparr>this := (this c)\<lparr>invalidationLevel :=
          maxLevel (invalidationLevel (this c)) level\<rparr>\<rparr>"

subsection \<open>Copy construction\<close>

text \<open>
  Modelled from the spec: \<open>Property::clone\<close> (virtual, defined by the Property classes,
  which are not part of the sources): a deep clone, that is a new property object with the
  content of the original, which no owner holds yet.
\<close>

definition clone :: "PropertyPtr \<Rightarrow> Ctx \<Rightarrow> PropertyPtr \<times> Ctx" where
  "clone p c =
     (nextFree c,
      c\<lparr>store := (store c)(nextFree c := (store c p)\<lparr>owner := None\<rparr>),
        nextFree := Suc (nextFree c)\<rparr>)"

text \<open>
  The loop of the copy constructor: \<open>addProperty(p->clone())\<close> for each owned property
  of \<open>rhs\<close>. The call passes a raw pointer and no second argument, so the overload
  \<open>addProperty(Property*, bool owner)\<close> runs with its default, true. An exception of
  \<open>addProperty\<close> leaves the loop.
\<close>

fun addClones :: "PropertyPtr list \<Rightarrow> Ctx \<Rightarrow> (Exception + unit) \<times> Ctx" where
  "addClones [] c = (Inr (), c)"
| "addClones (p # ps) c =
     (case clone p c of
        (q, c1) \<Rightarrow>
          (case addProperty q True c1 of
             (Inl e, c2) \<Rightarrow> (Inl e, c2)
           | (Inr u, c2) \<Rightarrow> addClones ps c2))"

text \<open>
  \<open>PropertyOwner::PropertyOwner(const PropertyOwner& rhs)\<close>. The state given has
  \<open>rhs\<close> as its owner; the state returned has the copy as its owner, at the address
  \<open>newSelf\<close> (and \<open>newAsProperty\<close> when the copy is a CompositeProperty), over the
  same store. Modelled from the spec: the copy constructor of the base
  PropertyOwnerObservable (not part of the sources) does not copy observers.
\<close>

definition copyConstruct ::
  "OwnerPtr \<Rightarrow> PropertyPtr option \<Rightarrow> Ctx \<Rightarrow> (Exception + unit) \<times> Ctx" where
  "copyConstruct newSelf newAsProperty c =
     addClones (ownedProperties (this c))
       (c\<lparr>this := \<lparr>self = newSelf, asProperty = newAsProperty, properties = [],
                    eventProperties = [], compositeProperties = [], ownedProperties = [],
                    invalidationLevel = invalidationLevel (this c), observers = []\<rparr>\<rparr>)"

text \<open>
  Modelled from the spec: a mutation of a property object, here the assignment of a
  value (the setters belong to the Property classes, which are not part of the sources).
\<close>

definition setPropertyValue :: "PropertyPtr \<Rightarrow> int \<Rightarrow> Ctx \<Rightarrow> Ctx" where
  "setPropertyValue p v c = c\<lparr>store := (store c)(p := (store c p)\<lparr>val := v\<rparr>)\<rparr>"

subsection \<open>Properties by path\<close>

text \<open>
  Modelled from the spec: \<open>util::splitByFirst\<close> (a string utility that is not part of
  the sources): the text before the first delimiter and the text after it; without a
  delimiter the whole text and the empty text.
\<close>

definition splitByFirst :: "string \<Rightarrow> char \<Rightarrow> string \<times> string" where
  "splitByFirst str delimiter =
     (takeWhile (\<lambda>x. x \<noteq> delimiter) str, drop 1 (dropWhile (\<lambda>x. x \<noteq> delimiter) str))"

text \<open>
  \<open>getPropertyByPath(path)\<close>. \<open>composite\<close> gives the PropertyOwner that a
  CompositeProperty is; the recursion continues in it with the rest of the path.
\<close>

function getPropertyByPath ::
  "(PropertyPtr \<Rightarrow> Property) \<Rightarrow> (PropertyPtr \<Rightarrow> PropertyOwner) \<Rightarrow> PropertyOwner \<Rightarrow> string \<Rightarrow>
   PropertyPtr option" where
  "getPropertyByPath st composite own path =
     (if path = [] then None
      else if snd (splitByFirst path CHR ''.'') = []
      then getPropertyByIdentifier st own (fst (splitByFirst path CHR ''.''))
      else (case find (\<lambda>c. getIdentifier (st c) = fst (splitByFirst path CHR ''.''))
                   (compositeProperties own) of
              Some c \<Rightarrow> getPropertyByPath st composite (composite c) (snd (splitByFirst path CHR ''.''))
            | None \<Rightarrow> None))"
  by pat_completeness auto
termination
proof (relation "measure (\<lambda>(st, composite, own, path). length path)")
  show "wf (measure (\<lambda>(st, composite, own, path). length path))" by simp
next
  fix st :: "PropertyPtr \<Rightarrow> Property" and composite :: "PropertyPtr \<Rightarrow> PropertyOwner"
    and own :: PropertyOwner and path :: string and c :: PropertyPtr
  assume "path \<noteq> []"
  then have "length (drop 1 (dropWhile (\<lambda>x. x \<noteq> CHR ''.'') path)) < length path"
    using length_dropWhile_le [of "\<lambda>x. x \<noteq> CHR ''.''" path] by (cases path) auto
  then show "((st, composite, composite c, snd (splitByFirst path CHR ''.'')), (st, composite, own, path))
               \<in> measure (\<lambda>(st, composite, own, path). length path)"
    by (simp add: splitByFirst_def)
qed

section \<open>Network utilities (src/core/network/networkutils.cpp)\<close>

text \<open>
  A processor is addressed by a \<open>Processor*\<close>; a port is its processor together with
  the number of the port on it, so \<open>getProcessor()\<close> of a port is the first component.
  A PortConnection is the pair (outport, inport), a PropertyLink the pair
  (source, destination).
\<close>

type_synonym ProcessorPtr = nat
type_synonym Inport = "ProcessorPtr \<times> nat"
type_synonym Outport = "ProcessorPtr \<times> nat"
type_synonym PortConnection = "Outport \<times> Inport"
type_synonym PropertyLink = "PropertyPtr \<times> PropertyPtr"

definition getProcessor :: "ProcessorPtr \<times> nat \<Rightarrow> ProcessorPtr" where
  "getProcessor port = fst port"

definition getOutport :: "PortConnection \<Rightarrow> Outport" where
  "getOutport connection = fst connection"

definition getInport :: "PortConnection \<Rightarrow> Inport" where
  "getInport connection = snd connection"

definition getSource :: "PropertyLink \<Rightarrow> PropertyPtr" where
  "getSource link = fst link"

definition getDestination :: "PropertyLink \<Rightarrow> PropertyPtr" where
  "getDestination link = snd link"

text \<open>
  The part of a Processor object the utilities read and write: its identifier, the numbers
  of its inports and outports, what \<open>isSink()\<close> and the \<open>isSelected()\<close> of its
  ProcessorMetaData answer, and the PropertyOwner it is.
\<close>

record Processor =
  processorIdentifier :: string
  inportNumbers :: "nat list"
  outportNumbers :: "nat list"
  isSink :: bool
  isSelected :: bool
  asOwner :: PropertyOwner

text \<open>
  The network with the objects it refers to. \<open>processors\<close>, \<open>connections\<close> and
  \<open>links\<close> are what \<open>getProcessors()\<close>, \<open>getConnections()\<close> and \<open>getLinks()\<close>
  return; \<open>processorAt\<close>, \<open>propertyAt\<close> and \<open>compositeAt\<close> are the processor
  objects, the property objects and the PropertyOwner that a CompositeProperty is. The
  remaining fields are what virtual or undeclared members answer:
  \<open>Inport::canConnectTo\<close>, \<open>Inport::getMaxNumberOfConnections\<close>,
  \<open>Processor::isConnectionActive\<close>, \<open>Property::getPath\<close> and
  \<open>property->getOwner()->getProcessor()\<close>.
\<close>

record ProcessorNetwork =
  processors :: "ProcessorPtr list"
  connections :: "PortConnection list"
  links :: "PropertyLink list"
  processorAt :: "ProcessorPtr \<Rightarrow> Processor"
  propertyAt :: "PropertyPtr \<Rightarrow> Property"
  compositeAt :: "PropertyPtr \<Rightarrow> PropertyOwner"
  canConnectTo :: "Inport \<Rightarrow> Outport \<Rightarrow> bool"
  getMaxNumberOfConnections :: "Inport \<Rightarrow> nat"
  isConnectionActive :: "ProcessorPtr \<Rightarrow> Inport \<Rightarrow> Outport \<Rightarrow> bool"
  getPath :: "PropertyPtr \<Rightarrow> string"
  getOwnerProcessor :: "PropertyPtr \<Rightarrow> ProcessorPtr"

definition getInports :: "ProcessorNetwork \<Rightarrow> ProcessorPtr \<Rightarrow> Inport list" where
  "getInports net p = map (Pair p) (inportNumbers (processorAt net p))"

definition getOutports :: "ProcessorNetwork \<Rightarrow> ProcessorPtr \<Rightarrow> Outport list" where
  "getOutports net p = map (Pair p) (outportNumbers (processorAt net p))"

text \<open>
  Modelled from the spec: \<open>Inport::getConnectedOutports\<close> and
  \<open>Outport::getConnectedInports\<close> (the port classes are not part of the sources). A
  connection is an ordered pair (Outport, Inport) of the network's connection set, and a
  port is connected to the ports the network's connections pair it with.
\<close>

definition getConnectedOutports :: "ProcessorNetwork \<Rightarrow> Inport \<Rightarrow> Outport list" where
  "getConnectedOutports net inport =
     map getOutport (filter (\<lambda>c. getInport c = inport) (connections net))"

definition getConnectedInports :: "ProcessorNetwork \<Rightarrow> Outport \<Rightarrow> Inport list" where
  "getConnectedInports net outport =
     map getInport (filter (\<lambda>c. getOutport c = outport) (connections net))"

definition getNumberOfConnections :: "ProcessorNetwork \<Rightarrow> Inport \<Rightarrow> nat" where
  "getNumberOfConnections net inport = length (getConnectedOutports net inport)"

text \<open>An inport has a free slot while it has fewer connections than its maximum.\<close>

definition hasFreeSlot :: "ProcessorNetwork \<Rightarrow> Inport \<Rightarrow> bool" where
  "hasFreeSlot net inport \<longleftrightarrow>
     getNumberOfConnections net inport < getMaxNumberOfConnections net inport"

text \<open>
  Modelled from the spec: \<open>ProcessorNetwork::addConnection\<close>,
  \<open>ProcessorNetwork::removeConnection\<close>, \<open>ProcessorNetwork::addLink\<close> and
  \<open>ProcessorNetwork::removeProcessor\<close> (the class is not part of the sources). The
  network owns a connection set and a link set. An inport accepts connections up to its
  maximum number (one outport unless it is a multi-input port); a connection beyond that
  is a structural conflict, which is thrown at the call site and leaves the network as it
  is. A connection that is in the set already is not added again. Removing a processor
  first detaches all connections and links touching it.
\<close>

definition addConnection ::
  "PortConnection \<Rightarrow> ProcessorNetwork \<Rightarrow> Exception + ProcessorNetwork" where
  "addConnection c net =
     (if c \<in> set (connections net) then Inr net
      else if \<not> hasFreeSlot net (getInport c) then Inl (ConnectionRefused c)
      else Inr (net\<lparr>connections := connections net @ [c]\<rparr>))"

definition removeConnection :: "PortConnection \<Rightarrow> ProcessorNetwork \<Rightarrow> ProcessorNetwork" where
  "removeConnection c net = net\<lparr>connections := removeAll c (connections net)\<rparr>"

definition addLink :: "PropertyLink \<Rightarrow> ProcessorNetwork \<Rightarrow> ProcessorNetwork" where
  "addLink l net =
     (if l \<in> set (links net) then net else net\<lparr>links := links net @ [l]\<rparr>)"

definition involves :: "ProcessorNetwork \<Rightarrow> ProcessorPtr \<Rightarrow> PropertyLink \<Rightarrow> bool" where
  "involves net p link \<longleftrightarrow>
     getOwnerProcessor net (getSource link) = p \<or>
     getOwnerProcessor net (getDestination link) = p"

definition removeProcessor :: "ProcessorPtr \<Rightarrow> ProcessorNetwork \<Rightarrow> ProcessorNetwork" where
  "removeProcessor p net =
     net\<lparr>processors := removeAll p (processors net),
         connections := filter (\<lambda>c. getProcessor (getOutport c) \<noteq> p \<and>
                                     getProcessor (getInport c) \<noteq> p) (connections net),
         links := filter (\<lambda>l. \<not> involves net p l) (links net)\<rparr>"

subsection \<open>Partial network extraction\<close>

record PartialProcessorNetwork =
  selectedProcessors :: "ProcessorPtr list"
  internalConnections :: "PortConnection list"
  externalConnections :: "PortConnection list"
  internalLinks :: "PropertyLink list"
  outLinks :: "PropertyLink list"
  inLinks :: "PropertyLink list"

text \<open>
  The loop over \<open>network_->getConnections()\<close>: a connection whose inport's processor
  is selected goes to the internal connections when the outport's processor is selected
  too, and to the external ones otherwise.
\<close>

fun partitionConnections ::
  "ProcessorPtr list \<Rightarrow> PortConnection list \<Rightarrow> PortConnection list \<times> PortConnection list \<Rightarrow>
   PortConnection list \<times> PortConnection list" where
  "partitionConnections selected [] (internal, external) = (internal, external)"
| "partitionConnections selected (connection # rest) (internal, external) =
     (let inp = getProcessor (getInport connection);
          out = getProcessor (getOutport connection)
      in if inp \<in> set selected
         then (if out \<in> set selected
               then partitionConnections selected rest (internal @ [connection], external)
               else partitionConnections selected rest (internal, external @ [connection]))
         else partitionConnections selected rest (internal, external))"

text \<open>The loop over \<open>network_->getLinks()\<close>.\<close>

fun partitionLinks ::
  "ProcessorNetwork \<Rightarrow> ProcessorPtr list \<Rightarrow> PropertyLink list \<Rightarrow>
   PropertyLink list \<times> PropertyLink list \<times> PropertyLink list \<Rightarrow>
   PropertyLink list \<times> PropertyLink list \<times> PropertyLink list" where
  "partitionLinks net selected [] (internal, outs, ins) = (internal, outs, ins)"
| "partitionLinks net selected (link # rest) (internal, outs, ins) =
     (let srcInt = getOwnerProcessor net (getSource link) \<in> set selected;
          dstInt = getOwnerProcessor net (getDestination link) \<in> set selected
      in if srcInt \<and> dstInt
         then partitionLinks net selected rest (internal @ [link], outs, ins)
         else if srcInt
         then partitionLinks net selected rest (internal, outs @ [link], ins)
         else if dstInt
         then partitionLinks net selected rest (internal, outs, ins @ [link])
         else partitionLinks net selected rest (internal, outs, ins))"

text \<open>
  \<open>detail::PartialProcessorNetwork::serialize\<close>: the six lists it hands to the
  serializer.
\<close>

definition serialize :: "ProcessorNetwork \<Rightarrow> PartialProcessorNetwork" where
  "serialize net =
     (let selected = filter (\<lambda>p. isSelected (processorAt net p)) (processors net);
          (internal, external) = partitionConnections selected (connections net) ([], []);
          (internalL, outL, inL) = partitionLinks net selected (links net) ([], [], [])
      in \<lparr>selectedProcessors = selected,
          internalConnections = internal,
          externalConnections = external,
          internalLinks = internalL,
          outLinks = outL,
          inLinks = inL\<rparr>)"

text \<open>A processor is selected when it is an element of the vector \<open>selected\<close>.\<close>

definition selectedIn :: "ProcessorNetwork \<Rightarrow> ProcessorPtr \<Rightarrow> bool" where
  "selectedIn net p \<longleftrightarrow> p \<in> set (processors net) \<and> isSelected (processorAt net p)"

subsection \<open>Splitting a connection\<close>

text \<open>
  \<open>addProcessorOnConnection(network, processor, connection)\<close>, the overload for a
  processor that is in the network already. The NetworkLock defers evaluation only. The
  result is the value returned, or the exception that left the call, with the network at
  that moment.
\<close>

definition addProcessorOnConnection ::
  "ProcessorNetwork \<Rightarrow> ProcessorPtr \<Rightarrow> PortConnection \<Rightarrow>
   (Exception + bool) \<times> ProcessorNetwork" where
  "addProcessorOnConnection network processor connection =
     (let connectionInport = getInport connection;
          connectionOutport = getOutport connection;
          inport = find (\<lambda>port. canConnectTo network port connectionOutport)
                     (getInports network processor);
          outport = find (\<lambda>port. canConnectTo network connectionInport port)
                      (getOutports network processor)
      in case (inport, outport) of
           (Some inp, Some outp) \<Rightarrow>
             (let net1 = removeConnection connection network
              in case addConnection (connectionOutport, inp) net1 of
                   Inl e \<Rightarrow> (Inl e, net1)
                 | Inr net2 \<Rightarrow>
                     (case addConnection (outp, connectionInport) net2 of
                        Inl e \<Rightarrow> (Inl e, net2)
                      | Inr net3 \<Rightarrow> (Inr True, net3)))
         | _ \<Rightarrow> (Inr False, network))"

text \<open>\<open>canSplitConnection(p, connection)\<close>.\<close>

definition canSplitConnection :: "ProcessorNetwork \<Rightarrow> ProcessorPtr \<Rightarrow> PortConnection \<Rightarrow> bool" where
  "canSplitConnection net p connection =
     (let inputMatch = list_ex (\<lambda>inport.
                         getNumberOfConnections net inport < getMaxNumberOfConnections net inport \<and>
                         canConnectTo net inport (getOutport connection))
                         (getInports net p);
          outputMatch = list_ex (\<lambda>outport. canConnectTo net (getInport connection) outport)
                          (getOutports net p)
      in inputMatch \<and> outputMatch)"

subsection \<open>Topological sort\<close>

text \<open>
  The processors the two nested loops of an upward traversal reach from a processor, in
  the order of the loops: for each inport of the processor, for each outport connected to
  it that the connection filter lets through, the processor of that outport.
\<close>

definition upstreamProcessors ::
  "ProcessorNetwork \<Rightarrow> (ProcessorPtr \<Rightarrow> Inport \<Rightarrow> Outport \<Rightarrow> bool) \<Rightarrow> ProcessorPtr \<Rightarrow>
   ProcessorPtr list" where
  "upstreamProcessors net connectionFilter processor =
     concat (map (\<lambda>port. map getProcessor
                            (filter (connectionFilter processor port)
                               (getConnectedOutports net port)))
               (getInports net processor))"

text \<open>
  Modelled from the spec: \<open>traverseNetwork<TraversalDirection::Up, VisitPattern::Post>\<close>
  (a template of networkutils.h, which is not part of the sources): a post-order
  depth-first traversal following inports, connected outports and their processors, that
  visits each processor once. The traversal state is the \<open>visited\<close> set together with
  the vector \<open>sorted\<close> that the visitor of \<open>topologicalSort\<close> pushes onto. The fuel
  bounds the depth of the recursion; \<open>None\<close> is a traversal that did not end within it.
\<close>

type_synonym TraversalState = "ProcessorPtr set \<times> ProcessorPtr list"

fun traverseNetwork ::
  "nat \<Rightarrow> ProcessorNetwork \<Rightarrow> (ProcessorPtr \<Rightarrow> Inport \<Rightarrow> Outport \<Rightarrow> bool) \<Rightarrow>
   ProcessorPtr \<Rightarrow> TraversalState \<Rightarrow> TraversalState option"
and traverseEach ::
  "nat \<Rightarrow> ProcessorNetwork \<Rightarrow> (ProcessorPtr \<Rightarrow> Inport \<Rightarrow> Outport \<Rightarrow> bool) \<Rightarrow>
   ProcessorPtr list \<Rightarrow> TraversalState \<Rightarrow> TraversalState option"
where
  "traverseNetwork fuel net connectionFilter processor (state, sortedVec) =
     (if processor \<in> state then Some (state, sortedVec)
      else (case fuel of
              0 \<Rightarrow> None
            | Suc fuel' \<Rightarrow>
                (case traverseEach fuel' net connectionFilter
                        (upstreamProcessors net connectionFilter processor)
                        (insert processor state, sortedVec) of
                   None \<Rightarrow> None
                 | Some (state', sortedVec') \<Rightarrow> Some (state', sortedVec' @ [processor]))))"
| "traverseEach fuel net connectionFilter [] st = Some st"
| "traverseEach fuel net connectionFilter (processor # rest) st =
     (case traverseNetwork fuel net connectionFilter processor st of
        None \<Rightarrow> None
      | Some st' \<Rightarrow> traverseEach fuel net connectionFilter rest st')"

text \<open>
  The sort with a connection filter: the sinks among \<open>network->getProcessors()\<close>, then
  one traversal per sink over a shared state. No traversal is deeper than the number of
  processors it can reach, and those are sinks of the network or processors of an outport
  of a connection.
\<close>

definition topologicalSortWith ::
  "(ProcessorPtr \<Rightarrow> Inport \<Rightarrow> Outport \<Rightarrow> bool) \<Rightarrow> ProcessorNetwork \<Rightarrow>
   ProcessorPtr list option" where
  "topologicalSortWith connectionFilter network =
     (let sinkProcessors = filter (\<lambda>p. isSink (processorAt network p)) (processors network)
      in map_option snd
           (traverseEach (length (processors network) + length (connections network))
              network connectionFilter sinkProcessors ({}, [])))"

text \<open>\<open>util::topologicalSort\<close>: the traversal without a filter follows every connection.\<close>

definition topologicalSort :: "ProcessorNetwork \<Rightarrow> ProcessorPtr list option" where
  "topologicalSort network = topologicalSortWith (\<lambda>p from to. True) network"

text \<open>\<open>util::topologicalSortFiltered\<close>: the filter is \<open>p->isConnectionActive(from, to)\<close>.\<close>

definition topologicalSortFiltered :: "ProcessorNetwork \<Rightarrow> ProcessorPtr list option" where
  "topologicalSortFiltered network =
     topologicalSortWith (\<lambda>p from to. isConnectionActive network p from to) network"

text \<open>
  The direct dependencies that the connections of the network give: \<open>(q, p)\<close> for each
  connection from an outport of \<open>q\<close> to an inport of \<open>p\<close> that the filter lets
  through; \<open>q\<close> is directly upstream of \<open>p\<close>.
\<close>

definition dependencies ::
  "ProcessorNetwork \<Rightarrow> (ProcessorPtr \<Rightarrow> Inport \<Rightarrow> Outport \<Rightarrow> bool) \<Rightarrow>
   (ProcessorPtr \<times> ProcessorPtr) set" where
  "dependencies net connectionFilter =
     set (map (\<lambda>c. (getProcessor (getOutport c), getProcessor (getInport c)))
            (filter (\<lambda>c. connectionFilter (getProcessor (getInport c)) (getInport c)
                           (getOutport c))
               (connections net)))"

text \<open>
  The invariant of the network that every connection's ports belong to its processors,
  for the inport side: the inport of each connection is one of the inports of its
  processor.
\<close>

definition connectionsAttached :: "ProcessorNetwork \<Rightarrow> bool" where
  "connectionsAttached net \<longleftrightarrow>
     list_all (\<lambda>c. getInport c \<in> set (getInports net (getProcessor (getInport c))))
       (connections net)"

text \<open>
  A list respects a dependency relation when, for any two positions of it, a processor
  that is upstream of another through one or more steps stands at the smaller position.
\<close>

definition respectsDependencies ::
  "(ProcessorPtr \<times> ProcessorPtr) set \<Rightarrow> ProcessorPtr list \<Rightarrow> bool" where
  "respectsDependencies deps sortedVec \<longleftrightarrow>
     (\<forall>i < length sortedVec. \<forall>j < length sortedVec.
        (sortedVec ! j, sortedVec ! i) \<in> deps\<^sup>+ \<longrightarrow> j < i)"

text \<open>
  The stronger order: every processor that is upstream, through one or more steps, of an
  element of the list is itself in the list, at a smaller position.
\<close>

definition upstreamListedBefore ::
  "(ProcessorPtr \<times> ProcessorPtr) set \<Rightarrow> ProcessorPtr list \<Rightarrow> bool" where
  "upstreamListedBefore deps sortedVec \<longleftrightarrow>
     (\<forall>i < length sortedVec. \<forall>q. (q, sortedVec ! i) \<in> deps\<^sup>+ \<longrightarrow>
        (\<exists>j < i. sortedVec ! j = q))"

text \<open>
  The steps the traversal takes: \<open>(q, p)\<close> when \<open>q\<close> is among the processors the
  loops of the traversal reach from \<open>p\<close>.
\<close>

definition upstreamOf ::
  "ProcessorNetwork \<Rightarrow> (ProcessorPtr \<Rightarrow> Inport \<Rightarrow> Outport \<Rightarrow> bool) \<Rightarrow>
   (ProcessorPtr \<times> ProcessorPtr) set" where
  "upstreamOf net connectionFilter =
     {(q, p). q \<in> set (upstreamProcessors net connectionFilter p)}"

text \<open>
  What a traversal started on \<open>roots\<close> adds: the new processors are appended to the
  vector and inserted into the visited set, each of them once and none that was visited
  before; each of them is upstream of a root; all direct upstream processors of each are
  visited at the end; and the roots are visited at the end.
\<close>

definition visitStep ::
  "(ProcessorPtr \<times> ProcessorPtr) set \<Rightarrow> ProcessorPtr set \<Rightarrow> TraversalState \<Rightarrow>
   TraversalState \<Rightarrow> bool" where
  "visitStep E roots st st' \<longleftrightarrow>
     roots \<subseteq> fst st' \<and>
     (\<exists>added. snd st' = snd st @ added \<and> fst st' = fst st \<union> set added \<and> distinct added \<and>
        set added \<inter> fst st = {} \<and>
        (\<forall>x \<in> set added. (\<exists>r \<in> roots. (x, r) \<in> E\<^sup>*) \<and> E\<inverse> `` {x} \<subseteq> fst st'))"

text \<open>
  A vector is finished in order when the direct upstream processors of each element stand
  before it.
\<close>

definition finishedInOrder ::
  "(ProcessorPtr \<times> ProcessorPtr) set \<Rightarrow> ProcessorPtr list \<Rightarrow> bool" where
  "finishedInOrder E xs \<longleftrightarrow> (\<forall>i < length xs. E\<inverse> `` {xs ! i} \<subseteq> set (take i xs))"

text \<open>
  The processors visited and not yet pushed are those whose traversal is running. A
  traversal may start on \<open>roots\<close> when the vector is finished in order inside the visited
  set and every root is strictly upstream of every running processor.
\<close>

definition running :: "TraversalState \<Rightarrow> ProcessorPtr set" where
  "running st = fst st - set (snd st)"

definition orderPre ::
  "(ProcessorPtr \<times> ProcessorPtr) set \<Rightarrow> ProcessorPtr set \<Rightarrow> TraversalState \<Rightarrow> bool" where
  "orderPre E roots st \<longleftrightarrow>
     set (snd st) \<subseteq> fst st \<and> finishedInOrder E (snd st) \<and>
     (\<forall>r \<in> roots. \<forall>a \<in> running st. (r, a) \<in> E\<^sup>+)"

definition orderPost ::
  "(ProcessorPtr \<times> ProcessorPtr) set \<Rightarrow> ProcessorPtr set \<Rightarrow> TraversalState \<Rightarrow>
   TraversalState \<Rightarrow> bool" where
  "orderPost E roots st st' \<longleftrightarrow>
     set (snd st') \<subseteq> fst st' \<and> finishedInOrder E (snd st') \<and>
     running st' = running st \<and> roots \<subseteq> set (snd st') \<and> set (snd st) \<subseteq> set (snd st')"

subsection \<open>Processor replacement\<close>

text \<open>
  The first block of \<open>replaceProcessor\<close>: each inport of the new processor takes over
  the connections of the first remaining old inport all of whose connected outports it can
  connect to; that old inport is then erased from the candidates.
\<close>

fun matchInports ::
  "ProcessorNetwork \<Rightarrow> Inport list \<Rightarrow> Inport list \<Rightarrow> PortConnection list \<Rightarrow>
   PortConnection list" where
  "matchInports net [] oldInports newConnections = newConnections"
| "matchInports net (newInport # rest) oldInports newConnections =
     (case find (\<lambda>oldInport. list_all (\<lambda>outport. canConnectTo net newInport outport)
                                (getConnectedOutports net oldInport)) oldInports of
        Some oldInport \<Rightarrow>
          matchInports net rest (remove1 oldInport oldInports)
            (newConnections @
               map (\<lambda>outport. (outport, newInport)) (getConnectedOutports net oldInport))
      | None \<Rightarrow> matchInports net rest oldInports newConnections)"

text \<open>The second block, for the outports.\<close>

fun matchOutports ::
  "ProcessorNetwork \<Rightarrow> Outport list \<Rightarrow> Outport list \<Rightarrow> PortConnection list \<Rightarrow>
   PortConnection list" where
  "matchOutports net [] oldOutports newConnections = newConnections"
| "matchOutports net (newOutport # rest) oldOutports newConnections =
     (case find (\<lambda>oldOutport. list_all (\<lambda>inport. canConnectTo net inport newOutport)
                                 (getConnectedInports net oldOutport)) oldOutports of
        Some oldOutport \<Rightarrow>
          matchOutports net rest (remove1 oldOutport oldOutports)
            (newConnections @
               map (\<lambda>inport. (newOutport, inport)) (getConnectedInports net oldOutport))
      | None \<Rightarrow> matchOutports net rest oldOutports newConnections)"

text \<open>
  Modelled from the spec: the push of property links (the link evaluation belongs to
  classes that are not part of the sources). A link is a one-directional push: whenever
  its source property changes, the value of its destination is assigned from it. An
  assigned destination has changed and pushes along its own links in turn; a property
  that was assigned in this push, or that started it, is not assigned again.
  \<open>changed\<close> are the properties whose links are still to be served, \<open>visited\<close>
  the properties assigned so far together with the one that started the push.
\<close>

function pushAlong ::
  "PropertyLink list \<Rightarrow> PropertyPtr list \<Rightarrow> PropertyPtr list \<Rightarrow> (PropertyPtr \<Rightarrow> Property) \<Rightarrow>
   (PropertyPtr \<Rightarrow> Property)" where
  "pushAlong ls [] visited st = st"
| "pushAlong ls (src # changed) visited st =
     pushAlong ls
       (changed @ remdups (filter (\<lambda>d. d \<notin> set visited)
                             (map getDestination (filter (\<lambda>l. getSource l = src) ls))))
       (visited @ remdups (filter (\<lambda>d. d \<notin> set visited)
                             (map getDestination (filter (\<lambda>l. getSource l = src) ls))))
       (fold (\<lambda>d s. s(d := (s d)\<lparr>val := val (s src)\<rparr>))
          (remdups (filter (\<lambda>d. d \<notin> set visited)
                      (map getDestination (filter (\<lambda>l. getSource l = src) ls))))
          st)"
  by pat_completeness auto
termination
proof (relation "inv_image (less_than <*lex*> less_than)
         (\<lambda>(ls, changed, visited, st).
            (card (getDestination ` set ls - set visited), length changed))")
  show "wf (inv_image (less_than <*lex*> less_than)
         (\<lambda>(ls, changed, visited, st).
            (card (getDestination ` set ls - set visited), length changed)))"
    by (intro wf_inv_image wf_lex_prod wf_less_than)
next
  fix ls :: "PropertyLink list" and src :: PropertyPtr and changed visited :: "PropertyPtr list"
    and st :: "PropertyPtr \<Rightarrow> Property"
  let ?dsts = "remdups (filter (\<lambda>d. d \<notin> set visited)
                          (map getDestination (filter (\<lambda>l. getSource l = src) ls)))"
  let ?D = "getDestination ` set ls"
  have sub: "set ?dsts \<subseteq> ?D - set visited" by auto
  show "((ls, changed @ ?dsts, visited @ ?dsts,
          fold (\<lambda>d s. s(d := (s d)\<lparr>val := val (s src)\<rparr>)) ?dsts st),
         (ls, src # changed, visited, st))
        \<in> inv_image (less_than <*lex*> less_than)
            (\<lambda>(ls, changed, visited, st).
               (card (getDestination ` set ls - set visited), length changed))"
  proof (cases "?dsts = []")
    case True
    then show ?thesis by simp
  next
    case False
    then obtain d where d: "d \<in> set ?dsts" by (cases ?dsts) auto
    have "?D - set (visited @ ?dsts) \<subset> ?D - set visited"
      using sub d by auto
    moreover have "finite (?D - set visited)" by simp
    ultimately have "card (?D - set (visited @ ?dsts)) < card (?D - set visited)"
      by (rule psubset_card_mono [rotated])
    then show ?thesis by simp
  qed
qed

text \<open>
  Modelled from the spec: \<open>Property::set(const Property*)\<close> (virtual, defined by the
  Property classes, which are not part of the sources): the value of the source property
  is copied; the property has changed then, and the links of the network that start at it
  push the value on.
\<close>

definition setFrom :: "PropertyPtr \<Rightarrow> PropertyPtr \<Rightarrow> ProcessorNetwork \<Rightarrow> ProcessorNetwork" where
  "setFrom newProp oldProp net =
     net\<lparr>propertyAt :=
           pushAlong (links net) [newProp] [newProp]
             ((propertyAt net)
                (newProp := (propertyAt net newProp)\<lparr>val := val (propertyAt net oldProp)\<rparr>))\<rparr>"

text \<open>
  The loop over \<open>oldProcessor->getProperties()\<close>: the value of an old property is
  copied to the property of the new processor with the same identifier when the class
  identifiers are equal.
\<close>

fun copyPropertyValues ::
  "ProcessorPtr \<Rightarrow> PropertyPtr list \<Rightarrow> ProcessorNetwork \<Rightarrow> ProcessorNetwork" where
  "copyPropertyValues newProcessor [] net = net"
| "copyPropertyValues newProcessor (oldProp # rest) net =
     (case getPropertyByIdentifier (propertyAt net) (asOwner (processorAt net newProcessor))
             (getIdentifier (propertyAt net oldProp)) of
        Some newProp \<Rightarrow>
          if getClassIdentifier (propertyAt net newProp) =
             getClassIdentifier (propertyAt net oldProp)
          then copyPropertyValues newProcessor rest (setFrom newProp oldProp net)
          else copyPropertyValues newProcessor rest net
      | None \<Rightarrow> copyPropertyValues newProcessor rest net)"

text \<open>
  The property of the new processor that one turn of this loop assigns to: the one found
  by the identifier of the old property, when its class identifier is that of the old
  property.
\<close>

definition copyTarget ::
  "ProcessorNetwork \<Rightarrow> ProcessorPtr \<Rightarrow> PropertyPtr \<Rightarrow> PropertyPtr option" where
  "copyTarget net newProcessor oldProp =
     (case getPropertyByIdentifier (propertyAt net) (asOwner (processorAt net newProcessor))
             (getIdentifier (propertyAt net oldProp)) of
        Some newProp \<Rightarrow>
          if getClassIdentifier (propertyAt net newProp) =
             getClassIdentifier (propertyAt net oldProp)
          then Some newProp else None
      | None \<Rightarrow> None)"

text \<open>
  The loop over the links that involve the old processor: the end that belongs to the old
  processor moves to the property of the new processor at the same path behind the
  processor identifier, when there is one.
\<close>

fun moveLinks ::
  "ProcessorPtr \<Rightarrow> ProcessorPtr \<Rightarrow> PropertyLink list \<Rightarrow> ProcessorNetwork \<Rightarrow> ProcessorNetwork"
  where
  "moveLinks newProcessor oldProcessor [] net = net"
| "moveLinks newProcessor oldProcessor (link # rest) net =
     (if getOwnerProcessor net (getDestination link) = oldProcessor
      then (case getPropertyByPath (propertyAt net) (compositeAt net)
                   (asOwner (processorAt net newProcessor))
                   (snd (splitByFirst (getPath net (getDestination link)) CHR ''.'')) of
              Some newDst \<Rightarrow>
                moveLinks newProcessor oldProcessor rest (addLink (getSource link, newDst) net)
            | None \<Rightarrow> moveLinks newProcessor oldProcessor rest net)
      else if getOwnerProcessor net (getSource link) = oldProcessor
      then (case getPropertyByPath (propertyAt net) (compositeAt net)
                   (asOwner (processorAt net newProcessor))
                   (snd (splitByFirst (getPath net (getSource link)) CHR ''.'')) of
              Some newSrc \<Rightarrow>
                moveLinks newProcessor oldProcessor rest
                  (addLink (newSrc, getDestination link) net)
            | None \<Rightarrow> moveLinks newProcessor oldProcessor rest net)
      else moveLinks newProcessor oldProcessor rest net)"

text \<open>
  Modelled from the spec: \<open>Processor::setIdentifier\<close> (the Processor class is not part
  of the sources): the new processor assumes the identifier.
\<close>

definition setIdentifier :: "ProcessorPtr \<Rightarrow> string \<Rightarrow> ProcessorNetwork \<Rightarrow> ProcessorNetwork" where
  "setIdentifier p ident net =
     net\<lparr>processorAt := (processorAt net)
            (p := (processorAt net p)\<lparr>processorIdentifier := ident\<rparr>)\<rparr>"

text \<open>The loop \<open>for (auto& con : newConnections) network->addConnection(con)\<close>.\<close>

fun addConnections ::
  "PortConnection list \<Rightarrow> ProcessorNetwork \<Rightarrow> (Exception + unit) \<times> ProcessorNetwork" where
  "addConnections [] net = (Inr (), net)"
| "addConnections (con # rest) net =
     (case addConnection con net of
        Inl e \<Rightarrow> (Inl e, net)
      | Inr net' \<Rightarrow> addConnections rest net')"

text \<open>
  \<open>replaceProcessor(network, newProcessor, oldProcessor)\<close>, the overload for a new
  processor that is in the network already. The result is the old processor, removed from
  the network, or the exception that left the call, with the network at that moment.
\<close>

definition replaceProcessor ::
  "ProcessorNetwork \<Rightarrow> ProcessorPtr \<Rightarrow> ProcessorPtr \<Rightarrow>
   (Exception + ProcessorPtr) \<times> ProcessorNetwork" where
  "replaceProcessor network newProcessor oldProcessor =
     (let newConnections =
            matchOutports network (getOutports network newProcessor)
              (getOutports network oldProcessor)
              (matchInports network (getInports network newProcessor)
                 (getInports network oldProcessor) []);
          net1 = copyPropertyValues newProcessor
                   (properties (asOwner (processorAt network oldProcessor))) network;
          net2 = moveLinks newProcessor oldProcessor
                   (filter (involves net1 oldProcessor) (links net1)) net1;
          net3 = removeProcessor oldProcessor net2
      in case addConnections newConnections net3 of
           (Inl e, net4) \<Rightarrow> (Inl e, net4)
         | (Inr u, net4) \<Rightarrow>
             (Inr oldProcessor,
              setIdentifier newProcessor
                (processorIdentifier (processorAt net4 oldProcessor)) net4))"

subsection \<open>A concrete owner\<close>

definition exampleProperty :: "string \<Rightarrow> string \<Rightarrow> int \<Rightarrow> Property" where
  "exampleProperty i k v =
     \<lparr>getIdentifier = i, getClassIdentifier = k, val = v, isEventProperty = False,
      isCompositeProperty = False, owner = None, serializationMode = Default,
      isValidProp = False\<rparr>"

definition exampleStore :: "PropertyPtr \<Rightarrow> Property" where
  "exampleStore =
     (\<lambda>_. exampleProperty ''c'' ''org.inviwo.IntProperty'' 0)
       (0 := exampleProperty ''a'' ''org.inviwo.IntProperty'' 1,
        1 := exampleProperty ''b'' ''org.inviwo.IntProperty'' 2,
        2 := exampleProperty ''a'' ''org.inviwo.FloatProperty'' 3)"

definition exampleCtx :: Ctx where
  "exampleCtx =
     \<lparr>this = \<lparr>self = 0, asProperty = None, properties = [0, 1], eventProperties = [],
               compositeProperties = [], ownedProperties = [1],
               invalidationLevel = InvalidOutput, observers = [7]\<rparr>,
      store = exampleStore, nextFree = 4, delivered = []\<rparr>"

subsection \<open>Concrete networks\<close>

definition emptyOwner :: PropertyOwner where
  "emptyOwner =
     \<lparr>self = 0, asProperty = None, properties = [], eventProperties = [],
      compositeProperties = [], ownedProperties = [], invalidationLevel = Valid,
      observers = []\<rparr>"

definition exampleProcessor ::
  "string \<Rightarrow> nat list \<Rightarrow> nat list \<Rightarrow> bool \<Rightarrow> bool \<Rightarrow> Processor" where
  "exampleProcessor name ins outs sink sel =
     \<lparr>processorIdentifier = name, inportNumbers = ins, outportNumbers = outs, isSink = sink,
      isSelected = sel, asOwner = emptyOwner\<rparr>"

text \<open>
  Source (0), Filter (1), Canvas (2, a sink) and an unconnected Spare (3). Source feeds
  Filter and Canvas; Filter feeds back into Source through a connection that Source
  reports as inactive. Only Source is selected.
\<close>

definition feedbackNetwork :: ProcessorNetwork where
  "feedbackNetwork =
     \<lparr>processors = [0, 1, 2, 3],
      connections = [((0, 0), (1, 0)), ((1, 0), (0, 0)), ((0, 0), (2, 0))],
      links = [],
      processorAt = (\<lambda>_. exampleProcessor ''Spare'' [0] [0] False False)
        (0 := exampleProcessor ''Source'' [0] [0] False True,
         1 := exampleProcessor ''Filter'' [0] [0] False False,
         2 := exampleProcessor ''Canvas'' [0] [] True False),
      propertyAt = (\<lambda>_. exampleProperty ''p'' ''org.inviwo.IntProperty'' 0),
      compositeAt = (\<lambda>_. emptyOwner),
      canConnectTo = (\<lambda>inport outport. True),
      getMaxNumberOfConnections = (\<lambda>inport. 1),
      isConnectionActive = (\<lambda>p inport outport. p \<noteq> 0),
      getPath = (\<lambda>_. ''''),
      getOwnerProcessor = (\<lambda>_. 0)\<rparr>"

text \<open>The same processors as a chain: Source feeds Filter, Filter feeds Canvas.\<close>

definition chainNetwork :: ProcessorNetwork where
  "chainNetwork = feedbackNetwork\<lparr>connections := [((0, 0), (1, 0)), ((1, 0), (2, 0))],
                                   isConnectionActive := (\<lambda>p inport outport. True)\<rparr>"

text \<open>
  The chain with one more connection, from Filter to Spare, which fills the only inport of
  Spare.
\<close>

definition busyNetwork :: ProcessorNetwork where
  "busyNetwork =
     chainNetwork\<lparr>connections := [((0, 0), (1, 0)), ((1, 0), (2, 0)), ((1, 0), (3, 0))]\<rparr>"

text \<open>
  The chain with properties: Filter (1) has an integer property x = 5 and a float property
  y = 7 (at the addresses 10 and 11); Spare (3) has integer properties x = 0 and y = 1
  (at 20 and 21). A link leads from the x of Filter to the x of Source (at 30).
\<close>

definition replaceNetwork :: ProcessorNetwork where
  "replaceNetwork =
     chainNetwork\<lparr>
       links := [(10, 30)],
       processorAt := (processorAt chainNetwork)
         (1 := (exampleProcessor ''Filter'' [0] [0] False False)
                 \<lparr>asOwner := emptyOwner\<lparr>self := 1, properties := [10, 11]\<rparr>\<rparr>,
          3 := (exampleProcessor ''Spare'' [0] [0] False False)
                 \<lparr>asOwner := emptyOwner\<lparr>self := 3, properties := [20, 21]\<rparr>\<rparr>),
       propertyAt := (\<lambda>_. exampleProperty ''p'' ''org.inviwo.IntProperty'' 0)
         (10 := exampleProperty ''x'' ''org.inviwo.IntProperty'' 5,
          11 := exampleProperty ''y'' ''org.inviwo.FloatProperty'' 7,
          20 := exampleProperty ''x'' ''org.inviwo.IntProperty'' 0,
          21 := exampleProperty ''y'' ''org.inviwo.IntProperty'' 1),
       getPath := (\<lambda>_. ''Source.p'')
         (10 := ''Filter.x'', 11 := ''Filter.y'', 20 := ''Spare.x'', 21 := ''Spare.y''),
       getOwnerProcessor := (\<lambda>_. 0)(10 := 1, 11 := 1, 20 := 3, 21 := 3)\<rparr>"

text \<open>
  The same with a link inside the new processor: Filter has integer properties x = 5 and
  z = 8 (at 10 and 12), Spare has integer properties x and z (at 20 and 22), and a link
  leads from the z of Spare to the x of Spare.
\<close>

definition linkedNetwork :: ProcessorNetwork where
  "linkedNetwork =
     replaceNetwork\<lparr>
       links := [(22, 20)],
       processorAt := (processorAt chainNetwork)
         (1 := (exampleProcessor ''Filter'' [0] [0] False False)
                 \<lparr>asOwner := emptyOwner\<lparr>self := 1, properties := [10, 12]\<rparr>\<rparr>,
          3 := (exampleProcessor ''Spare'' [0] [0] False False)
                 \<lparr>asOwner := emptyOwner\<lparr>self := 3, properties := [20, 22]\<rparr>\<rparr>),
       propertyAt := (\<lambda>_. exampleProperty ''p'' ''org.inviwo.IntProperty'' 0)
         (10 := exampleProperty ''x'' ''org.inviwo.IntProperty'' 5,
          12 := exampleProperty ''z'' ''org.inviwo.IntProperty'' 8,
          20 := exampleProperty ''x'' ''org.inviwo.IntProperty'' 0,
          22 := exampleProperty ''z'' ''org.inviwo.IntProperty'' 0),
       getOwnerProcessor := (\<lambda>_. 0)(10 := 1, 12 := 1, 20 := 3, 22 := 3)\<rparr>"

section \<open>ModuleManager::reloadModules (src/core/common/modulemanager.cpp)\<close>

text \<open>
  The part of a ModuleContainer that \<open>reloadModules\<close> reads and writes: whether the
  module object exists (\<open>getModule() != nullptr\<close>), whether the library is loaded, the two
  protection flags and what \<open>dependsOn\<close> answers.
\<close>

record ModuleContainer =
  containerIdentifier :: string
  dependsOn :: "string \<Rightarrow> bool"
  isProtectedModule :: bool
  isProtectedLibrary :: bool
  hasModule :: bool
  libraryLoaded :: bool

datatype ManagerEvent =
    LogInfo string
  | LogException string
  | LogError string
  | ModulesWillUnregister
  | ModulesDidRegister
  | CapabilitiesPrinted string

text \<open>
  The application state \<open>reloadModules\<close> works on: the system setting, the containers
  \<open>inviwoModules_\<close>, the processors of the network (by identifier), and the log lines
  written and callbacks invoked so far.
\<close>

record Application =
  runtimeModuleReloading :: bool
  inviwoModules :: "ModuleContainer list"
  networkProcessors :: "string list"
  events :: "ManagerEvent list"

text \<open>
  What the collaborators answer: \<open>WorkspaceManager::save\<close> writes the network to the
  stream or throws,
  \<open>ModuleContainer::createModule\<close> creates the module or throws, and
  \<open>WorkspaceManager::load\<close> restores the network from the stream or throws.
\<close>

datatype SaveOutcome = Saved string | SaveSerializationException string | SaveOtherException

datatype CreateOutcome =
    Created
  | ModuleInitException string "string list"
  | CreateInviwoException string
  | CreateStdException string

datatype LoadOutcome = Loaded "string list" | LoadSerializationException string

record Collaborators =
  save :: "string list \<Rightarrow> SaveOutcome"
  createModule :: "ModuleContainer \<Rightarrow> CreateOutcome"
  load :: "string \<Rightarrow> LoadOutcome"

text \<open>How a call ends: it returns, or an exception leaves it.\<close>

datatype Completion = Returned | Propagated

definition isRuntimeModuleReloadingEnabled :: "Application \<Rightarrow> bool" where
  "isRuntimeModuleReloadingEnabled app = runtimeModuleReloading app"

text \<open>
  \<open>findDependentModules(moduleId)\<close>: the recursion follows \<open>dependsOn\<close> and has no
  visited set, so it is given fuel; \<open>None\<close> is a recursion that did not end within it.
\<close>

fun pushBackUnique :: "string list \<Rightarrow> string \<Rightarrow> string list" where
  "pushBackUnique xs x = (if x \<in> set xs then xs else xs @ [x])"

fun findDependentModulesLoop ::
  "nat \<Rightarrow> ModuleContainer list \<Rightarrow> string \<Rightarrow> ModuleContainer list \<Rightarrow> string list \<Rightarrow>
   string list option" where
  "findDependentModulesLoop fuel ms moduleId [] deps = Some (foldl pushBackUnique [] deps)"
| "findDependentModulesLoop 0 ms moduleId (item # items) deps =
     (if dependsOn item moduleId then None
      else findDependentModulesLoop 0 ms moduleId items deps)"
| "findDependentModulesLoop (Suc fuel) ms moduleId (item # items) deps =
     (if dependsOn item moduleId
      then (case findDependentModulesLoop fuel ms (containerIdentifier item) ms [] of
              None \<Rightarrow> None
            | Some ds \<Rightarrow>
                findDependentModulesLoop (Suc fuel) ms moduleId items
                  (deps @ ds @ [containerIdentifier item]))
      else findDependentModulesLoop (Suc fuel) ms moduleId items deps)"

definition findDependentModules :: "Application \<Rightarrow> string \<Rightarrow> string list option" where
  "findDependentModules app moduleId =
     findDependentModulesLoop (length (inviwoModules app)) (inviwoModules app) moduleId
       (inviwoModules app) []"

definition resetModule :: "ModuleContainer \<Rightarrow> ModuleContainer" where
  "resetModule cont = cont\<lparr>hasModule := False\<rparr>"

definition unload :: "ModuleContainer \<Rightarrow> ModuleContainer" where
  "unload cont = cont\<lparr>libraryLoaded := False\<rparr>"

definition loadLibrary :: "ModuleContainer \<Rightarrow> ModuleContainer" where
  "loadLibrary cont = cont\<lparr>libraryLoaded := True\<rparr>"

text \<open>
  \<open>deregisterDependentModules(toDeregister)\<close>: the set to deregister, then the
  containers in reverse order; the result is the list of identifiers reset and the
  application after it.
\<close>

fun collectDeregister :: "Application \<Rightarrow> string list \<Rightarrow> string set \<Rightarrow> string set option" where
  "collectDeregister app [] acc = Some acc"
| "collectDeregister app (m # ms) acc =
     (case findDependentModules app m of
        None \<Rightarrow> None
      | Some dependents \<Rightarrow> collectDeregister app ms (insert m acc \<union> set dependents))"

definition deregisterDependentModules ::
  "string list \<Rightarrow> Application \<Rightarrow> (string list \<times> Application) option" where
  "deregisterDependentModules toDeregister app =
     (case collectDeregister app toDeregister {} of
        None \<Rightarrow> None
      | Some deregister \<Rightarrow>
          Some (map containerIdentifier
                  (filter (\<lambda>cont. containerIdentifier cont \<in> deregister)
                     (rev (inviwoModules app))),
                app\<lparr>inviwoModules :=
                      map (\<lambda>cont. if containerIdentifier cont \<in> deregister
                                   then resetModule cont else cont)
                        (inviwoModules app)\<rparr>))"

text \<open>
  The loop that creates the modules again: the container at index \<open>i\<close> of
  \<open>inviwoModules_\<close>, then the rest. Each exception of \<open>createModule\<close> is caught and
  logged; a ModuleInitException also deregisters the dependent modules.
\<close>

function createModulesFrom ::
  "Collaborators \<Rightarrow> nat \<Rightarrow> Application \<Rightarrow> Application option" where
  "createModulesFrom env i app =
     (if i \<ge> length (inviwoModules app) then Some app
      else (let cont = inviwoModules app ! i
            in if isProtectedModule cont then createModulesFrom env (Suc i) app
               else (case createModule env cont of
                       Created \<Rightarrow>
                         createModulesFrom env (Suc i)
                           (app\<lparr>inviwoModules :=
                                 (inviwoModules app)[i := cont\<lparr>hasModule := True\<rparr>]\<rparr>)
                     | ModuleInitException msg toDeregister \<Rightarrow>
                         (case deregisterDependentModules toDeregister app of
                            None \<Rightarrow> None
                          | Some (dereg, app') \<Rightarrow>
                              createModulesFrom env (Suc i)
                                (app'\<lparr>events := events app' @ [LogException msg]\<rparr>))
                     | CreateInviwoException msg \<Rightarrow>
                         createModulesFrom env (Suc i)
                           (app\<lparr>events := events app @ [LogException msg]\<rparr>)
                     | CreateStdException msg \<Rightarrow>
                         createModulesFrom env (Suc i)
                           (app\<lparr>events := events app @ [LogError msg]\<rparr>))))"
  by pat_completeness auto
termination
  by (relation "measure (\<lambda>(env, i, app). length (inviwoModules app) - i)")
     (auto simp: deregisterDependentModules_def split: option.splits)

definition printCapabilities :: "Application \<Rightarrow> Application" where
  "printCapabilities app =
     app\<lparr>events := events app @
            map (\<lambda>cont. CapabilitiesPrinted (containerIdentifier cont))
              (filter (\<lambda>cont. \<not> isProtectedModule cont \<and> hasModule cont)
                 (inviwoModules app))\<rparr>"

text \<open>
  The teardown and reload that follow a successful save: clear the network, invoke the
  will-unregister callbacks, reset the unprotected modules, unload and load the
  unprotected libraries, create the modules, print the capabilities, invoke the
  did-register callbacks, and load the network from the stream. The reset and unload loops
  run over the containers in reverse; each turn writes one container only, so the order
  does not show in the state after the loop.
\<close>

definition teardownAndReload ::
  "Collaborators \<Rightarrow> string \<Rightarrow> Application \<Rightarrow> Application option" where
  "teardownAndReload env stream app =
     (let a1 = app\<lparr>networkProcessors := []\<rparr>;
          a2 = a1\<lparr>events := events a1 @ [ModulesWillUnregister]\<rparr>;
          a3 = a2\<lparr>inviwoModules :=
                   map (\<lambda>cont. if \<not> isProtectedModule cont then resetModule cont else cont)
                     (inviwoModules a2)\<rparr>;
          a4 = a3\<lparr>inviwoModules :=
                   map (\<lambda>cont. if \<not> isProtectedLibrary cont then unload cont else cont)
                     (inviwoModules a3)\<rparr>;
          a5 = a4\<lparr>inviwoModules :=
                   map (\<lambda>cont. if \<not> isProtectedLibrary cont then loadLibrary cont else cont)
                     (inviwoModules a4)\<rparr>
      in case createModulesFrom env 0 a5 of
           None \<Rightarrow> None
         | Some a6 \<Rightarrow>
             (let a7 = printCapabilities a6;
                  a8 = a7\<lparr>events := events a7 @ [ModulesDidRegister]\<rparr>
              in case load env stream of
                   Loaded ps \<Rightarrow> Some (a8\<lparr>networkProcessors := ps\<rparr>)
                 | LoadSerializationException msg \<Rightarrow>
                     Some (a8\<lparr>events := events a8 @ [LogException msg]\<rparr>)))"

text \<open>
  \<open>reloadModules()\<close>. The result is how the call ends and the application after it;
  \<open>None\<close> stands for a call that does not end.
\<close>

definition reloadModules ::
  "Collaborators \<Rightarrow> Application \<Rightarrow> (Completion \<times> Application) option" where
  "reloadModules env app =
     (if \<not> isRuntimeModuleReloadingEnabled app then Some (Returned, app)
      else (let a0 = app\<lparr>events := events app @ [LogInfo ''Reloading modules'']\<rparr>
            in case save env (networkProcessors a0) of
                 SaveSerializationException msg \<Rightarrow>
                   Some (Returned, a0\<lparr>events := events a0 @ [LogException msg]\<rparr>)
               | SaveOtherException \<Rightarrow> Some (Propagated, a0)
               | Saved stream \<Rightarrow>
                   (case teardownAndReload env stream a0 of
                      None \<Rightarrow> None
                    | Some a \<Rightarrow> Some (Returned, a))))"

subsection \<open>A concrete application\<close>

definition exampleContainer :: "string \<Rightarrow> bool \<Rightarrow> ModuleContainer" where
  "exampleContainer name protected =
     \<lparr>containerIdentifier = name, dependsOn = (\<lambda>d. name = ''BaseGL'' \<and> d = ''Base''),
      isProtectedModule = protected, isProtectedLibrary = protected, hasModule = True,
      libraryLoaded = True\<rparr>"

definition exampleApplication :: Application where
  "exampleApplication =
     \<lparr>runtimeModuleReloading = True,
      inviwoModules = [exampleContainer ''Core'' True, exampleContainer ''Base'' False,
                       exampleContainer ''BaseGL'' False],
      networkProcessors = [''Source'', ''Canvas''],
      events = []\<rparr>"

definition failingSave :: Collaborators where
  "failingSave =
     \<lparr>save = (\<lambda>ps. SaveSerializationException ''cannot serialize''),
      createModule = (\<lambda>cont. Created),
      load = (\<lambda>stream. Loaded [])\<rparr>"

section \<open>Properties of PropertyOwner\<close>

lemma levelRank_maxLevel: "levelRank (maxLevel a b) = max (levelRank a) (levelRank b)"
  by (simp add: maxLevel_def max_def)

lemma this_notifyObservers [simp]: "this (notifyObservers n c) = this c"
  by (simp add: notifyObservers_def)

lemma store_notifyObservers [simp]: "store (notifyObservers n c) = store c"
  by (simp add: notifyObservers_def)

lemma level_fold_invalidate:
  "levelRank (getInvalidationLevel (fold invalidate levels c)) =
     fold (\<lambda>l r. max r (levelRank l)) levels (levelRank (getInvalidationLevel c))"
  by (induction levels arbitrary: c)
     (simp_all add: invalidate_def getInvalidationLevel_def levelRank_maxLevel)

lemma fold_max_ge: "(r::nat) \<le> fold (\<lambda>l r. max r (f l)) levels r"
proof (induction levels arbitrary: r)
  case Nil
  show ?case by simp
next
  case (Cons l ls)
  have "r \<le> max r (f l)" by simp
  also have "\<dots> \<le> fold (\<lambda>l r. max r (f l)) ls (max r (f l))" by (rule Cons.IH)
  finally show ?case by simp
qed

lemma this_fold_setValidProperty [simp]: "this (fold setValidProperty ps c) = this c"
  by (induction ps arbitrary: c) (simp_all add: setValidProperty_def)

lemma valid_kept_setValidProperty:
  "isValidProp (store c p) \<Longrightarrow> isValidProp (store (fold setValidProperty ps c) p)"
  by (induction ps arbitrary: c) (simp_all add: setValidProperty_def)

lemma valid_fold_setValidProperty:
  "p \<in> set ps \<Longrightarrow> isValidProp (store (fold setValidProperty ps c) p)"
proof (induction ps arbitrary: c)
  case Nil
  then show ?case by simp
next
  case (Cons q qs)
  show ?case
  proof (cases "p = q")
    case True
    have "isValidProp (store (setValidProperty q c) p)"
      using True by (simp add: setValidProperty_def)
    then show ?thesis by (simp add: valid_kept_setValidProperty)
  next
    case False
    with Cons show ?thesis by simp
  qed
qed

lemma level_insertPropertyImpl [simp]:
  "invalidationLevel (this (insertPropertyImpl i p ow c)) = invalidationLevel (this c)"
  by (simp add: insertPropertyImpl_def Let_def setOwner_def setSerializationMode_def)

lemma level_insertProperty:
  "invalidationLevel (this (snd (insertProperty i p ow c))) = invalidationLevel (this c)"
  by (simp add: insertProperty_def Let_def split: option.splits)

lemma level_removePropertyImpl:
  "invalidationLevel (this (snd (removePropertyImpl i c))) = invalidationLevel (this c)"
  by (simp add: removePropertyImpl_def Let_def setOwner_def)

lemma level_move:
  "move p i c = Some (r, c') \<Longrightarrow> invalidationLevel (this c') = invalidationLevel (this c)"
  by (auto simp: move_def Let_def split: if_splits)

text \<open>
  Claim C5. \<open>invalidate(level)\<close> stores the maximum of the current level and the
  argument, so no sequence of \<open>invalidate\<close> calls lowers the level; \<open>setValid()\<close>
  sets every child property valid and the owner's level to Valid; inserting, removing and
  moving properties (to an index inside the vector) leave the level as it is.
\<close>

theorem invalidate_max_setValid_resets:
  "levelRank (getInvalidationLevel (invalidate level c)) =
      max (levelRank (getInvalidationLevel c)) (levelRank level)
   \<and> levelRank (getInvalidationLevel c) \<le>
      levelRank (getInvalidationLevel (fold invalidate levels c))
   \<and> getInvalidationLevel (setValid c) = Valid
   \<and> (\<forall>p \<in> set (properties (this c)). isValidProp (store (setValid c) p))
   \<and> getInvalidationLevel (snd (insertProperty i q ow c)) = getInvalidationLevel c
   \<and> getInvalidationLevel (snd (removePropertyImpl i c)) = getInvalidationLevel c
   \<and> (\<forall>r c'. move q i c = Some (r, c') \<longrightarrow>
         getInvalidationLevel c' = getInvalidationLevel c)"
proof (intro conjI)
  show "levelRank (getInvalidationLevel (invalidate level c)) =
      max (levelRank (getInvalidationLevel c)) (levelRank level)"
    by (simp add: invalidate_def getInvalidationLevel_def levelRank_maxLevel)
  show "levelRank (getInvalidationLevel c) \<le>
      levelRank (getInvalidationLevel (fold invalidate levels c))"
    by (simp add: level_fold_invalidate fold_max_ge)
  show "getInvalidationLevel (setValid c) = Valid"
    by (simp add: setValid_def getInvalidationLevel_def Let_def)
  show "\<forall>p \<in> set (properties (this c)). isValidProp (store (setValid c) p)"
    by (simp add: setValid_def Let_def valid_fold_setValidProperty)
  show "getInvalidationLevel (snd (insertProperty i q ow c)) = getInvalidationLevel c"
    by (simp add: getInvalidationLevel_def level_insertProperty)
  show "getInvalidationLevel (snd (removePropertyImpl i c)) = getInvalidationLevel c"
    by (simp add: getInvalidationLevel_def level_removePropertyImpl)
  show "\<forall>r c'. move q i c = Some (r, c') \<longrightarrow>
         getInvalidationLevel c' = getInvalidationLevel c"
    by (auto simp: getInvalidationLevel_def dest: level_move)
qed

theorem invalidate_max_setValid_resets_witness:
  "0 \<in> set (properties (this exampleCtx)) \<and> isValidProp (store (setValid exampleCtx) 0)
   \<and> (\<exists>c'. move 0 1 exampleCtx = Some (True, c')
         \<and> properties (this c') = [1, 0]
         \<and> getInvalidationLevel c' = getInvalidationLevel exampleCtx)
   \<and> move 0 2 exampleCtx = None"
proof -
  have v: "0 \<in> set (properties (this exampleCtx)) \<and> isValidProp (store (setValid exampleCtx) 0)"
    using invalidate_max_setValid_resets [where c = exampleCtx]
    by (simp add: exampleCtx_def)
  obtain c' where m: "move 0 1 exampleCtx = Some (True, c')" and p: "properties (this c') = [1, 0]"
    by (simp add: move_def exampleCtx_def Let_def)
  from invalidate_max_setValid_resets [where c = exampleCtx and q = 0 and i = 1] m
  have "getInvalidationLevel c' = getInvalidationLevel exampleCtx" by blast
  moreover have "move 0 2 exampleCtx = None"
    by (simp add: move_def exampleCtx_def Let_def)
  ultimately show ?thesis using v m p by blast
qed

lemma find_Some_if_member:
  "q \<in> set ps \<Longrightarrow> P q \<Longrightarrow> \<exists>e. find P ps = Some e"
  by (induction ps) auto

text \<open>
  Claim C2. When the identifier of the property to add is already used by a property of
  the owner, \<open>insertProperty\<close> and \<open>addProperty\<close> (and the \<open>unique_ptr\<close> overload)
  throw, and the state at the throw is the state before the call: the property list, the
  side-indices, the owned properties, the property store and the notifications delivered
  are all unchanged.
\<close>

theorem insertProperty_duplicate_identifier_unchanged:
  assumes "q \<in> set (properties (this c))"
    and "getIdentifier (store c q) = getIdentifier (store c property)"
  shows "\<exists>existing.
           insertProperty index property ownerFlag c =
             (Inl (IdentifierAlreadyUsed property existing), c)
         \<and> addProperty property ownerFlag c =
             (Inl (IdentifierAlreadyUsed property existing), c)
         \<and> insertPropertyUnique index property c =
             (Inl (IdentifierAlreadyUsed property existing), c)"
proof -
  obtain e where e: "getPropertyByIdentifier (store c) (this c) (getIdentifier (store c property)) = Some e"
    using find_Some_if_member [OF assms(1), of "\<lambda>p. getIdentifier (store c p) = getIdentifier (store c property)"] assms(2)
    by (auto simp: getPropertyByIdentifier_def)
  have ins: "\<And>i ow. insertProperty i property ow c = (Inl (IdentifierAlreadyUsed property e), c)"
    by (simp add: insertProperty_def e)
  show ?thesis
    by (rule exI [of _ e]) (simp add: ins addProperty_def insertPropertyUnique_def)
qed

theorem insertProperty_duplicate_identifier_unchanged_witness:
  "(0::nat) \<in> set (properties (this exampleCtx))
   \<and> getIdentifier (store exampleCtx 0) = getIdentifier (store exampleCtx 2)
   \<and> snd (insertProperty 1 2 True exampleCtx) = exampleCtx
   \<and> snd (addProperty 2 True exampleCtx) = exampleCtx"
proof -
  have h1: "(0::nat) \<in> set (properties (this exampleCtx))"
    by (simp add: exampleCtx_def)
  have h2: "getIdentifier (store exampleCtx 0) = getIdentifier (store exampleCtx 2)"
    by (simp add: exampleCtx_def exampleStore_def exampleProperty_def)
  from insertProperty_duplicate_identifier_unchanged [OF h1 h2, of 1 True]
  obtain e where "insertProperty 1 2 True exampleCtx = (Inl (IdentifierAlreadyUsed 2 e), exampleCtx)"
    and "addProperty 2 True exampleCtx = (Inl (IdentifierAlreadyUsed 2 e), exampleCtx)"
    by blast
  with h1 h2 show ?thesis by simp
qed

text \<open>
  Claim C9. With an index greater than the number of properties, \<open>insertProperty\<close>
  behaves as \<open>addProperty\<close>: it raises no range error, and when it succeeds the
  property is the last element of the order.
\<close>

theorem insertProperty_index_clamped:
  assumes "index > length (properties (this c))"
  shows "insertProperty index property ownerFlag c = addProperty property ownerFlag c
         \<and> (\<forall>a b. fst (insertProperty index property ownerFlag c) \<noteq> Inl (RangeException a b))
         \<and> (getPropertyByIdentifier (store c) (this c) (getIdentifier (store c property)) = None
              \<and> asProperty (this c) \<noteq> Some property \<longrightarrow>
            fst (insertProperty index property ownerFlag c) = Inr ()
            \<and> properties (this (snd (insertProperty index property ownerFlag c))) =
                properties (this c) @ [property])"
  using assms
  by (auto simp: insertProperty_def addProperty_def Let_def insertPropertyImpl_def
                 setOwner_def setSerializationMode_def split: option.splits)

theorem insertProperty_index_clamped_witness:
  "(5::nat) > length (properties (this exampleCtx))
   \<and> getPropertyByIdentifier (store exampleCtx) (this exampleCtx) (getIdentifier (store exampleCtx 3)) = None
   \<and> asProperty (this exampleCtx) \<noteq> Some 3
   \<and> fst (insertProperty 5 3 False exampleCtx) = Inr ()
   \<and> properties (this (snd (insertProperty 5 3 False exampleCtx))) = [0, 1, 3]"
  using insertProperty_index_clamped [of exampleCtx 5 3 False]
  by (auto simp: exampleCtx_def exampleStore_def exampleProperty_def getPropertyByIdentifier_def)

subsection \<open>Copy construction\<close>

lemma clone_add_step:
  assumes obs: "observers (this c) = []"
    and fresh: "\<forall>q \<in> set (properties (this c)). q \<noteq> nextFree c"
    and unused: "\<forall>q \<in> set (properties (this c)).
                   getIdentifier (store c q) \<noteq> getIdentifier (store c p)"
    and notself: "asProperty (this c) \<noteq> Some (nextFree c)"
  shows "\<exists>c'. addProperty (nextFree c) True (snd (clone p c)) = (Inr (), c')
           \<and> properties (this c') = properties (this c) @ [nextFree c]
           \<and> ownedProperties (this c') = ownedProperties (this c) @ [nextFree c]
           \<and> observers (this c') = []
           \<and> asProperty (this c') = asProperty (this c)
           \<and> self (this c') = self (this c)
           \<and> invalidationLevel (this c') = invalidationLevel (this c)
           \<and> nextFree c' = Suc (nextFree c)
           \<and> delivered c' = delivered c
           \<and> store c' = (store c)(nextFree c :=
                 (store c p)\<lparr>owner := Some (self (this c)), serializationMode := All\<rparr>)"
proof -
  let ?c1 = "snd (clone p c)"
  have this1: "this ?c1 = this c" by (simp add: clone_def)
  have st1: "store ?c1 = (store c)(nextFree c := (store c p)\<lparr>owner := None\<rparr>)"
    by (simp add: clone_def)
  have "find (\<lambda>q. getIdentifier (store ?c1 q) = getIdentifier (store ?c1 (nextFree c)))
          (properties (this c)) = None"
    using fresh unused by (simp add: st1 find_None_iff)
  then have none: "getPropertyByIdentifier (store ?c1) (this ?c1)
                     (getIdentifier (store ?c1 (nextFree c))) = None"
    by (simp add: getPropertyByIdentifier_def this1)
  show ?thesis
    using none notself obs
    by (simp add: addProperty_def insertProperty_def this1 Let_def insertPropertyImpl_def
        notifyObservers_def setOwner_def setSerializationMode_def)
       (simp add: clone_def fun_eq_iff)
qed

lemma addClones_clones:
  assumes obs: "observers (this c) = []"
    and lim: "\<forall>q \<in> set (properties (this c)). q < nextFree c"
    and src: "\<forall>p \<in> set ps. p < nextFree c"
    and ids: "distinct (map (\<lambda>p. getIdentifier (store c p)) ps)"
    and unused: "\<forall>q \<in> set (properties (this c)). \<forall>p \<in> set ps.
                   getIdentifier (store c q) \<noteq> getIdentifier (store c p)"
    and notself: "\<forall>a. asProperty (this c) = Some a \<longrightarrow> a < nextFree c"
  shows "\<exists>c'. addClones ps c = (Inr (), c')
           \<and> properties (this c') =
               properties (this c) @ [nextFree c ..< nextFree c + length ps]
           \<and> ownedProperties (this c') =
               ownedProperties (this c) @ [nextFree c ..< nextFree c + length ps]
           \<and> observers (this c') = []
           \<and> asProperty (this c') = asProperty (this c)
           \<and> self (this c') = self (this c)
           \<and> invalidationLevel (this c') = invalidationLevel (this c)
           \<and> nextFree c' = nextFree c + length ps
           \<and> delivered c' = delivered c
           \<and> (\<forall>a < nextFree c. store c' a = store c a)
           \<and> (\<forall>i < length ps. store c' (nextFree c + i) =
                 (store c (ps ! i))\<lparr>owner := Some (self (this c)), serializationMode := All\<rparr>)"
  using assms
proof (induction ps arbitrary: c)
  case Nil
  then show ?case by simp
next
  case (Cons p ps)
  let ?n = "nextFree c"
  have fresh: "\<forall>q \<in> set (properties (this c)). q \<noteq> ?n" using Cons.prems(2) by auto
  have un: "\<forall>q \<in> set (properties (this c)).
              getIdentifier (store c q) \<noteq> getIdentifier (store c p)"
    using Cons.prems(5) by simp
  have ns: "asProperty (this c) \<noteq> Some ?n" using Cons.prems(6) by auto
  from clone_add_step [OF Cons.prems(1) fresh un ns]
  obtain c1 where add: "addProperty ?n True (snd (clone p c)) = (Inr (), c1)"
    and props1: "properties (this c1) = properties (this c) @ [?n]"
    and owned1: "ownedProperties (this c1) = ownedProperties (this c) @ [?n]"
    and obs1: "observers (this c1) = []"
    and as1: "asProperty (this c1) = asProperty (this c)"
    and self1: "self (this c1) = self (this c)"
    and lev1: "invalidationLevel (this c1) = invalidationLevel (this c)"
    and nf1: "nextFree c1 = Suc ?n"
    and del1: "delivered c1 = delivered c"
    and st1: "store c1 = (store c)(?n :=
                 (store c p)\<lparr>owner := Some (self (this c)), serializationMode := All\<rparr>)"
    by blast
  have old: "\<And>a. a < ?n \<Longrightarrow> store c1 a = store c a" by (simp add: st1)
  have psn: "\<forall>q \<in> set ps. q < ?n" and pn: "p < ?n" using Cons.prems(3) by auto
  have lim1: "\<forall>q \<in> set (properties (this c1)). q < nextFree c1"
    using Cons.prems(2) by (auto simp: props1 nf1)
  have src1: "\<forall>q \<in> set ps. q < nextFree c1" using psn by (auto simp: nf1)
  have map_eq: "map (\<lambda>q. getIdentifier (store c1 q)) ps = map (\<lambda>q. getIdentifier (store c q)) ps"
    using psn by (auto simp: old)
  have ids1: "distinct (map (\<lambda>q. getIdentifier (store c1 q)) ps)"
    using Cons.prems(4) by (simp add: map_eq)
  have pid: "\<forall>q \<in> set ps. getIdentifier (store c p) \<noteq> getIdentifier (store c q)"
    using Cons.prems(4) by auto
  have unused1: "\<forall>q \<in> set (properties (this c1)). \<forall>r \<in> set ps.
                   getIdentifier (store c1 q) \<noteq> getIdentifier (store c1 r)"
  proof (intro ballI)
    fix q r assume q: "q \<in> set (properties (this c1))" and r: "r \<in> set ps"
    from r psn have r1: "store c1 r = store c r" by (simp add: old)
    from q consider "q \<in> set (properties (this c))" | "q = ?n" by (auto simp: props1)
    then show "getIdentifier (store c1 q) \<noteq> getIdentifier (store c1 r)"
    proof cases
      case 1
      with Cons.prems(2) have "store c1 q = store c q" by (simp add: old)
      with 1 r r1 Cons.prems(5) show ?thesis by simp
    next
      case 2
      then have "getIdentifier (store c1 q) = getIdentifier (store c p)" by (simp add: st1)
      with r r1 pid show ?thesis by simp
    qed
  qed
  have notself1: "\<forall>a. asProperty (this c1) = Some a \<longrightarrow> a < nextFree c1"
    using Cons.prems(6) by (auto simp: as1 nf1)
  from Cons.IH [OF obs1 lim1 src1 ids1 unused1 notself1]
  obtain c' where rest: "addClones ps c1 = (Inr (), c')"
    and props': "properties (this c') =
                   properties (this c1) @ [nextFree c1 ..< nextFree c1 + length ps]"
    and owned': "ownedProperties (this c') =
                   ownedProperties (this c1) @ [nextFree c1 ..< nextFree c1 + length ps]"
    and obs': "observers (this c') = []"
    and as': "asProperty (this c') = asProperty (this c1)"
    and self': "self (this c') = self (this c1)"
    and lev': "invalidationLevel (this c') = invalidationLevel (this c1)"
    and nf': "nextFree c' = nextFree c1 + length ps"
    and del': "delivered c' = delivered c1"
    and olds': "\<forall>a < nextFree c1. store c' a = store c1 a"
    and news': "\<forall>i < length ps. store c' (nextFree c1 + i) =
                 (store c1 (ps ! i))\<lparr>owner := Some (self (this c1)), serializationMode := All\<rparr>"
    by blast
  have run: "addClones (p # ps) c = (Inr (), c')"
    using add rest by (simp add: clone_def split: prod.splits)
  have upt: "[?n ..< ?n + length (p # ps)] = ?n # [Suc ?n ..< Suc ?n + length ps]"
    by (simp add: upt_rec)
  have olds: "\<forall>a < ?n. store c' a = store c a"
  proof (intro allI impI)
    fix a assume a: "a < ?n"
    with olds' have "store c' a = store c1 a" by (simp add: nf1)
    with a show "store c' a = store c a" by (simp add: old)
  qed
  have news: "\<forall>i < length (p # ps). store c' (?n + i) =
                 (store c ((p # ps) ! i))\<lparr>owner := Some (self (this c)), serializationMode := All\<rparr>"
  proof (intro allI impI)
    fix i assume i: "i < length (p # ps)"
    show "store c' (?n + i) =
            (store c ((p # ps) ! i))\<lparr>owner := Some (self (this c)), serializationMode := All\<rparr>"
    proof (cases i)
      case 0
      have "store c' ?n = store c1 ?n" using olds' by (simp add: nf1)
      with 0 show ?thesis by (simp add: st1)
    next
      case (Suc j)
      with i have j: "j < length ps" by simp
      then have "ps ! j \<in> set ps" by simp
      with psn have "store c1 (ps ! j) = store c (ps ! j)" by (simp add: old)
      with news' j Suc show ?thesis by (simp add: nf1 self1)
    qed
  qed
  have pr: "properties (this c') = properties (this c) @ [?n ..< ?n + length (p # ps)]"
  proof -
    have "properties (this c') = (properties (this c) @ [?n]) @ [Suc ?n ..< Suc ?n + length ps]"
      using props' by (simp only: props1 nf1)
    also have "\<dots> = properties (this c) @ (?n # [Suc ?n ..< Suc ?n + length ps])" by simp
    finally show ?thesis by (simp only: upt)
  qed
  have ow: "ownedProperties (this c') =
              ownedProperties (this c) @ [?n ..< ?n + length (p # ps)]"
  proof -
    have "ownedProperties (this c') =
            (ownedProperties (this c) @ [?n]) @ [Suc ?n ..< Suc ?n + length ps]"
      using owned' by (simp only: owned1 nf1)
    also have "\<dots> = ownedProperties (this c) @ (?n # [Suc ?n ..< Suc ?n + length ps])" by simp
    finally show ?thesis by (simp only: upt)
  qed
  have as: "asProperty (this c') = asProperty (this c)" by (simp add: as' as1)
  have se: "self (this c') = self (this c)" by (simp add: self' self1)
  have le: "invalidationLevel (this c') = invalidationLevel (this c)" by (simp add: lev' lev1)
  have nf: "nextFree c' = ?n + length (p # ps)" by (simp add: nf' nf1)
  have de: "delivered c' = delivered c" by (simp add: del' del1)
  from run pr ow obs' as se le nf de olds news show ?case by blast
qed

text \<open>
  Claim C6. Copy-constructing a PropertyOwner returns an owner whose property list is
  one new property object per owned property of the source, in their order and with their
  content; the objects of the source are untouched, and stay so when a clone is mutated;
  the copy has no observer, so none of the source's, and no notification is delivered.
  The owned properties of the source have distinct identifiers and are objects of the
  store.
\<close>

theorem copyConstruct_deep_clones:
  assumes src: "\<forall>p \<in> set (ownedProperties (this c)). p < nextFree c"
    and ids: "distinct (map (\<lambda>p. getIdentifier (store c p)) (ownedProperties (this c)))"
    and notself: "\<forall>a. newAsProperty = Some a \<longrightarrow> a < nextFree c"
  shows "\<exists>c'. copyConstruct newSelf newAsProperty c = (Inr (), c')
           \<and> properties (this c') =
               [nextFree c ..< nextFree c + length (ownedProperties (this c))]
           \<and> ownedProperties (this c') = properties (this c')
           \<and> (\<forall>i < length (ownedProperties (this c)).
                 store c' (properties (this c') ! i) =
                   (store c (ownedProperties (this c) ! i))
                     \<lparr>owner := Some newSelf, serializationMode := All\<rparr>)
           \<and> (\<forall>a < nextFree c. store c' a = store c a)
           \<and> (\<forall>q \<in> set (properties (this c')). \<forall>a < nextFree c. \<forall>v.
                 store (setPropertyValue q v c') a = store c a)
           \<and> observers (this c') = []
           \<and> set (observers (this c')) \<inter> set (observers (this c)) = {}
           \<and> delivered c' = delivered c"
proof -
  let ?c0 = "c\<lparr>this := \<lparr>self = newSelf, asProperty = newAsProperty, properties = [],
                    eventProperties = [], compositeProperties = [], ownedProperties = [],
                    invalidationLevel = invalidationLevel (this c), observers = []\<rparr>\<rparr>"
  let ?ps = "ownedProperties (this c)"
  have 1: "observers (this ?c0) = []" by simp
  have 2: "\<forall>q \<in> set (properties (this ?c0)). q < nextFree ?c0" by simp
  have 3: "\<forall>p \<in> set ?ps. p < nextFree ?c0" using src by simp
  have 4: "distinct (map (\<lambda>p. getIdentifier (store ?c0 p)) ?ps)" using ids by simp
  have 5: "\<forall>q \<in> set (properties (this ?c0)). \<forall>p \<in> set ?ps.
             getIdentifier (store ?c0 q) \<noteq> getIdentifier (store ?c0 p)" by simp
  have 6: "\<forall>a. asProperty (this ?c0) = Some a \<longrightarrow> a < nextFree ?c0" using notself by simp
  from addClones_clones [OF 1 2 3 4 5 6]
  obtain c' where run: "addClones ?ps ?c0 = (Inr (), c')"
    and props: "properties (this c') = [nextFree c ..< nextFree c + length ?ps]"
    and owned: "ownedProperties (this c') = [nextFree c ..< nextFree c + length ?ps]"
    and obs: "observers (this c') = []"
    and del: "delivered c' = delivered c"
    and olds: "\<forall>a < nextFree c. store c' a = store c a"
    and news: "\<forall>i < length ?ps. store c' (nextFree c + i) =
                 (store c (?ps ! i))\<lparr>owner := Some newSelf, serializationMode := All\<rparr>"
    by auto
  have a: "copyConstruct newSelf newAsProperty c = (Inr (), c')"
    using run by (simp add: copyConstruct_def)
  have b: "\<forall>i < length ?ps. store c' (properties (this c') ! i) =
             (store c (?ps ! i))\<lparr>owner := Some newSelf, serializationMode := All\<rparr>"
    using news by (simp add: props)
  have d: "\<forall>q \<in> set (properties (this c')). \<forall>a < nextFree c. \<forall>v.
             store (setPropertyValue q v c') a = store c a"
    using olds by (auto simp: props setPropertyValue_def)
  from a props owned b olds d obs del show ?thesis by auto
qed

theorem copyConstruct_deep_clones_witness:
  "list_all (\<lambda>p. p < nextFree exampleCtx) (ownedProperties (this exampleCtx))
   \<and> distinct (map (\<lambda>p. getIdentifier (store exampleCtx p)) (ownedProperties (this exampleCtx)))
   \<and> observers (this exampleCtx) = [7]
   \<and> (\<exists>c'. copyConstruct 9 None exampleCtx = (Inr (), c')
         \<and> properties (this c') = [4]
         \<and> getIdentifier (store c' 4) = ''b'' \<and> val (store c' 4) = 2
         \<and> val (store (setPropertyValue 4 99 c') 1) = 2
         \<and> observers (this c') = [])"
proof -
  have h1: "\<forall>p \<in> set (ownedProperties (this exampleCtx)). p < nextFree exampleCtx"
    by (simp add: exampleCtx_def)
  have h2: "distinct (map (\<lambda>p. getIdentifier (store exampleCtx p))
              (ownedProperties (this exampleCtx)))"
    by (simp add: exampleCtx_def)
  have h3: "\<forall>a. (None :: PropertyPtr option) = Some a \<longrightarrow> a < nextFree exampleCtx" by simp
  have e: "ownedProperties (this exampleCtx) = [1]" "nextFree exampleCtx = 4"
    "store exampleCtx (Suc 0) = exampleProperty ''b'' ''org.inviwo.IntProperty'' 2"
    "observers (this exampleCtx) = [7]"
    by (simp_all add: exampleCtx_def exampleStore_def)
  from copyConstruct_deep_clones [OF h1 h2 h3, of 9]
  obtain c' where r: "copyConstruct 9 None exampleCtx = (Inr (), c')"
    and p: "properties (this c') = [4]"
    and st: "\<forall>i < length [1::nat]. store c' (properties (this c') ! i) =
               (store exampleCtx ([1] ! i))\<lparr>owner := Some 9, serializationMode := All\<rparr>"
    and ind: "\<forall>q \<in> set (properties (this c')). \<forall>a < 4. \<forall>v.
                store (setPropertyValue q v c') a = store exampleCtx a"
    and ob: "observers (this c') = []"
    unfolding e by auto
  from st p have s4: "store c' 4 =
      (store exampleCtx (Suc 0))\<lparr>owner := Some 9, serializationMode := All\<rparr>"
    by auto
  from ind p have i1: "store (setPropertyValue 4 99 c') (Suc 0) = store exampleCtx (Suc 0)"
    by auto
  show ?thesis
    using r p ob h1 h2 by (auto simp: s4 i1 e exampleProperty_def list_all_iff)
qed

section \<open>Properties of reloadModules\<close>

text \<open>
  Claim C8. When saving the workspace throws a SerializationException,
  \<open>reloadModules\<close> returns before any teardown: the network keeps its processors, the
  module containers are as they were (no module reset, no library unloaded), no
  will-unregister callback ran, and only the two log lines were written.
\<close>

theorem reloadModules_save_failure_no_teardown:
  assumes "isRuntimeModuleReloadingEnabled app"
    and "save env (networkProcessors app) = SaveSerializationException msg"
  shows "\<exists>app'. reloadModules env app = Some (Returned, app')
           \<and> networkProcessors app' = networkProcessors app
           \<and> inviwoModules app' = inviwoModules app
           \<and> runtimeModuleReloading app' = runtimeModuleReloading app
           \<and> events app' = events app @ [LogInfo ''Reloading modules'', LogException msg]"
  using assms by (simp add: reloadModules_def Let_def)

theorem reloadModules_save_failure_no_teardown_witness:
  "isRuntimeModuleReloadingEnabled exampleApplication
   \<and> save failingSave (networkProcessors exampleApplication) =
       SaveSerializationException ''cannot serialize''
   \<and> (\<exists>app'. reloadModules failingSave exampleApplication = Some (Returned, app')
         \<and> networkProcessors app' = [''Source'', ''Canvas'']
         \<and> inviwoModules app' = inviwoModules exampleApplication)"
proof -
  have h1: "isRuntimeModuleReloadingEnabled exampleApplication"
    by (simp add: isRuntimeModuleReloadingEnabled_def exampleApplication_def)
  have h2: "save failingSave (networkProcessors exampleApplication) =
              SaveSerializationException ''cannot serialize''"
    by (simp add: failingSave_def)
  have h3: "networkProcessors exampleApplication = [''Source'', ''Canvas'']"
    by (simp add: exampleApplication_def)
  from reloadModules_save_failure_no_teardown [OF h1 h2] h1 h2 h3
  show ?thesis by auto
qed

section \<open>Properties of partial network extraction\<close>

lemma partitionConnections_filter:
  "partitionConnections selected cs (internal, external) =
     (internal @ filter (\<lambda>c. getProcessor (getInport c) \<in> set selected \<and>
                              getProcessor (getOutport c) \<in> set selected) cs,
      external @ filter (\<lambda>c. getProcessor (getInport c) \<in> set selected \<and>
                              getProcessor (getOutport c) \<notin> set selected) cs)"
  by (induction cs arbitrary: internal external) (simp_all add: Let_def)

lemma serialize_connections:
  "internalConnections (serialize net) =
     filter (\<lambda>c. getProcessor (getInport c) \<in> set (selectedProcessors (serialize net)) \<and>
                 getProcessor (getOutport c) \<in> set (selectedProcessors (serialize net)))
       (connections net)"
  "externalConnections (serialize net) =
     filter (\<lambda>c. getProcessor (getInport c) \<in> set (selectedProcessors (serialize net)) \<and>
                 getProcessor (getOutport c) \<notin> set (selectedProcessors (serialize net)))
       (connections net)"
  by (simp_all add: serialize_def Let_def partitionConnections_filter split: prod.splits)

lemma selectedProcessors_serialize:
  "p \<in> set (selectedProcessors (serialize net)) \<longleftrightarrow> selectedIn net p"
  by (auto simp: serialize_def Let_def selectedIn_def split: prod.splits)

text \<open>
  Claim C3, as stated, fails for a connection whose outport side alone is selected: in
  the feedback network only Source is selected, and the connection from Source to Canvas
  is recorded neither as internal nor as external.
\<close>

theorem serialize_outport_side_counterexample:
  "((0, 0), (2, 0)) \<in> set (connections feedbackNetwork)
   \<and> selectedIn feedbackNetwork (getProcessor (getOutport ((0, 0), (2, 0))))
   \<and> \<not> selectedIn feedbackNetwork (getProcessor (getInport ((0, 0), (2, 0))))
   \<and> ((0, 0), (2, 0)) \<notin> set (externalConnections (serialize feedbackNetwork))
   \<and> ((0, 0), (2, 0)) \<notin> set (internalConnections (serialize feedbackNetwork))"
  by (simp add: serialize_connections selectedProcessors_serialize selectedIn_def
      feedbackNetwork_def exampleProcessor_def getInport_def getOutport_def getProcessor_def)

text \<open>
  Claim C3, amended. A connection of the network is recorded as internal exactly when
  the processors of both its ports are selected, and as external exactly when the
  processor of its inport is selected and the processor of its outport is not.
\<close>

theorem serialize_internal_external:
  "(c \<in> set (internalConnections (serialize net)) \<longleftrightarrow>
      c \<in> set (connections net) \<and> selectedIn net (getProcessor (getInport c))
        \<and> selectedIn net (getProcessor (getOutport c)))
   \<and> (c \<in> set (externalConnections (serialize net)) \<longleftrightarrow>
      c \<in> set (connections net) \<and> selectedIn net (getProcessor (getInport c))
        \<and> \<not> selectedIn net (getProcessor (getOutport c)))"
  by (auto simp: serialize_connections selectedProcessors_serialize)

section \<open>Properties of addProcessorOnConnection\<close>

lemma set_connections_removeConnection:
  "set (connections (removeConnection c net)) = set (connections net) - {c}"
  by (auto simp: removeConnection_def)

lemma find_None_iff_all: "find P xs = None \<longleftrightarrow> (\<forall>x \<in> set xs. \<not> P x)"
  by (induction xs) auto

lemma find_SomeD: "find P xs = Some x \<Longrightarrow> x \<in> set xs \<and> P x"
  by (induction xs) (auto split: if_splits)

lemma addConnection_accepts:
  assumes "hasFreeSlot net (getInport c)"
  shows "\<exists>net'. addConnection c net = Inr net'
           \<and> set (connections net') = insert c (set (connections net))
           \<and> (\<forall>j. j \<noteq> getInport c \<longrightarrow> hasFreeSlot net' j = hasFreeSlot net j)"
  using assms
  by (auto simp: addConnection_def hasFreeSlot_def getNumberOfConnections_def
                 getConnectedOutports_def)

text \<open>
  Claim C7, as stated, fails when the inport of the processor is occupied: in the busy
  network the only inport of Spare can connect to the outport of Source and Spare has an
  outport that Filter's inport can connect to, but that inport of Spare holds its one
  connection already. The old connection is removed, the first new connection is refused,
  and the call ends with that exception; \<open>canSplitConnection\<close> tells so beforehand.
\<close>

theorem addProcessorOnConnection_occupied_counterexample:
  "(\<exists>i \<in> set (getInports busyNetwork 3). canConnectTo busyNetwork i (0, 0))
   \<and> (\<exists>o' \<in> set (getOutports busyNetwork 3). canConnectTo busyNetwork (1, 0) o')
   \<and> ((0, 0), (1, 0)) \<in> set (connections busyNetwork)
   \<and> fst (addProcessorOnConnection busyNetwork 3 ((0, 0), (1, 0))) =
       Inl (ConnectionRefused ((0, 0), (3, 0)))
   \<and> connections (snd (addProcessorOnConnection busyNetwork 3 ((0, 0), (1, 0)))) =
       [((1, 0), (2, 0)), ((1, 0), (3, 0))]
   \<and> \<not> canSplitConnection busyNetwork 3 ((0, 0), (1, 0))"
  by (simp add: addProcessorOnConnection_def canSplitConnection_def addConnection_def
      removeConnection_def hasFreeSlot_def getNumberOfConnections_def getConnectedOutports_def
      getInports_def getOutports_def getInport_def getOutport_def Let_def
      busyNetwork_def chainNetwork_def feedbackNetwork_def exampleProcessor_def)

text \<open>
  Claim C7, amended. When the processor has an inport that can connect to the
  connection's outport and an outport that the connection's inport can connect to, and
  the first such inport is another port than the connection's inport, and it and the
  connection's inport have a free slot once the connection is removed, then
  \<open>addProcessorOnConnection\<close> returns true and the connection set is the old one
  without the connection and with the two new connections through those ports. When the
  processor has no such pair of ports, it returns false and the network is unchanged.
\<close>

theorem addProcessorOnConnection_splits_or_keeps:
  "(find (\<lambda>port. canConnectTo net port outp) (getInports net P) = Some i
    \<and> find (\<lambda>port. canConnectTo net inp port) (getOutports net P) = Some o'
    \<and> i \<noteq> inp
    \<and> hasFreeSlot (removeConnection (outp, inp) net) i
    \<and> hasFreeSlot (removeConnection (outp, inp) net) inp \<longrightarrow>
      fst (addProcessorOnConnection net P (outp, inp)) = Inr True
      \<and> set (connections (snd (addProcessorOnConnection net P (outp, inp)))) =
          (set (connections net) - {(outp, inp)}) \<union> {(outp, i), (o', inp)})
   \<and> (\<not> ((\<exists>i \<in> set (getInports net P). canConnectTo net i outp) \<and>
          (\<exists>o' \<in> set (getOutports net P). canConnectTo net inp o')) \<longrightarrow>
        addProcessorOnConnection net P (outp, inp) = (Inr False, net))"
proof (rule conjI)
  let ?net1 = "removeConnection (outp, inp) net"
  show "find (\<lambda>port. canConnectTo net port outp) (getInports net P) = Some i
    \<and> find (\<lambda>port. canConnectTo net inp port) (getOutports net P) = Some o'
    \<and> i \<noteq> inp
    \<and> hasFreeSlot (removeConnection (outp, inp) net) i
    \<and> hasFreeSlot (removeConnection (outp, inp) net) inp \<longrightarrow>
      fst (addProcessorOnConnection net P (outp, inp)) = Inr True
      \<and> set (connections (snd (addProcessorOnConnection net P (outp, inp)))) =
          (set (connections net) - {(outp, inp)}) \<union> {(outp, i), (o', inp)}"
  proof (rule impI)
  assume a: "find (\<lambda>port. canConnectTo net port outp) (getInports net P) = Some i
    \<and> find (\<lambda>port. canConnectTo net inp port) (getOutports net P) = Some o'
    \<and> i \<noteq> inp
    \<and> hasFreeSlot ?net1 i \<and> hasFreeSlot ?net1 inp"
  then have fi: "find (\<lambda>port. canConnectTo net port outp) (getInports net P) = Some i"
    and fo: "find (\<lambda>port. canConnectTo net inp port) (getOutports net P) = Some o'"
    and ne: "i \<noteq> inp" and ri: "hasFreeSlot ?net1 i" and rI: "hasFreeSlot ?net1 inp"
    by simp_all
  from addConnection_accepts [of ?net1 "(outp, i)"] ri
  obtain net2 where a2: "addConnection (outp, i) ?net1 = Inr net2"
    and s2: "set (connections net2) = insert (outp, i) (set (connections ?net1))"
    and k2: "\<forall>j. j \<noteq> i \<longrightarrow> hasFreeSlot net2 j = hasFreeSlot ?net1 j"
    by (auto simp: getInport_def)
  from ne have "inp \<noteq> i" by simp
  with k2 have "hasFreeSlot net2 inp = hasFreeSlot ?net1 inp" by blast
  with rI have "hasFreeSlot net2 inp" by simp
  with addConnection_accepts [of net2 "(o', inp)"]
  obtain net3 where a3: "addConnection (o', inp) net2 = Inr net3"
    and s3: "set (connections net3) = insert (o', inp) (set (connections net2))"
    by (auto simp: getInport_def)
  have res: "addProcessorOnConnection net P (outp, inp) = (Inr True, net3)"
    by (simp add: addProcessorOnConnection_def Let_def getInport_def getOutport_def fi fo a2 a3)
  show "fst (addProcessorOnConnection net P (outp, inp)) = Inr True
      \<and> set (connections (snd (addProcessorOnConnection net P (outp, inp)))) =
          (set (connections net) - {(outp, inp)}) \<union> {(outp, i), (o', inp)}"
    unfolding res by (auto simp: s3 s2 set_connections_removeConnection)
  qed
next
  show "\<not> ((\<exists>i \<in> set (getInports net P). canConnectTo net i outp) \<and>
          (\<exists>o' \<in> set (getOutports net P). canConnectTo net inp o')) \<longrightarrow>
        addProcessorOnConnection net P (outp, inp) = (Inr False, net)"
  proof (rule impI)
  assume n: "\<not> ((\<exists>i \<in> set (getInports net P). canConnectTo net i outp) \<and>
          (\<exists>o' \<in> set (getOutports net P). canConnectTo net inp o'))"
  then have "find (\<lambda>port. canConnectTo net port outp) (getInports net P) = None
     \<or> find (\<lambda>port. canConnectTo net inp port) (getOutports net P) = None"
    by (auto simp: find_None_iff_all)
  then show "addProcessorOnConnection net P (outp, inp) = (Inr False, net)"
    by (auto simp: addProcessorOnConnection_def Let_def getInport_def getOutport_def
             split: option.splits)
  qed
qed

theorem addProcessorOnConnection_splits_or_keeps_witness:
  "find (\<lambda>port. canConnectTo chainNetwork port (0, 0)) (getInports chainNetwork 3) = Some (3, 0)
   \<and> find (\<lambda>port. canConnectTo chainNetwork (1, 0) port) (getOutports chainNetwork 3) =
       Some (3, 0)
   \<and> hasFreeSlot (removeConnection ((0, 0), (1, 0)) chainNetwork) (3, 0)
   \<and> hasFreeSlot (removeConnection ((0, 0), (1, 0)) chainNetwork) (1, 0)
   \<and> fst (addProcessorOnConnection chainNetwork 3 ((0, 0), (1, 0))) = Inr True
   \<and> set (connections (snd (addProcessorOnConnection chainNetwork 3 ((0, 0), (1, 0))))) =
       {((1, 0), (2, 0)), ((0, 0), (3, 0)), ((3, 0), (1, 0))}
   \<and> \<not> (\<exists>o' \<in> set (getOutports chainNetwork 2). canConnectTo chainNetwork (1, 0) o')
   \<and> addProcessorOnConnection chainNetwork 2 ((0, 0), (1, 0)) = (Inr False, chainNetwork)"
proof -
  have ins: "getInports chainNetwork 3 = [(3, 0)]" and outs: "getOutports chainNetwork 3 = [(3, 0)]"
    and outs2: "getOutports chainNetwork 2 = []"
    and cons: "set (connections chainNetwork) = {((0, 0), (1, 0)), ((1, 0), (2, 0))}"
    by (simp_all add: getInports_def getOutports_def chainNetwork_def feedbackNetwork_def
        exampleProcessor_def)
  have can: "\<And>i o'. canConnectTo chainNetwork i o'"
    by (simp add: chainNetwork_def feedbackNetwork_def)
  have fi: "find (\<lambda>port. canConnectTo chainNetwork port (0, 0)) (getInports chainNetwork 3)
              = Some (3, 0)"
    and fo: "find (\<lambda>port. canConnectTo chainNetwork (1, 0) port) (getOutports chainNetwork 3)
              = Some (3, 0)"
    by (simp_all add: ins outs can)
  have r1: "hasFreeSlot (removeConnection ((0, 0), (1, 0)) chainNetwork) (3, 0)"
    and r2: "hasFreeSlot (removeConnection ((0, 0), (1, 0)) chainNetwork) (1, 0)"
    by (simp_all add: hasFreeSlot_def getNumberOfConnections_def getConnectedOutports_def
        removeConnection_def getInport_def chainNetwork_def feedbackNetwork_def)
  have ne: "((3, 0) :: Inport) \<noteq> (1, 0)" by simp
  from addProcessorOnConnection_splits_or_keeps
         [of chainNetwork "(0, 0)" 3 "(3, 0)" "(1, 0)" "(3, 0)"] fi fo r1 r2 ne
  have pos: "fst (addProcessorOnConnection chainNetwork 3 ((0, 0), (1, 0))) = Inr True
      \<and> set (connections (snd (addProcessorOnConnection chainNetwork 3 ((0, 0), (1, 0))))) =
          (set (connections chainNetwork) - {((0, 0), (1, 0))}) \<union> {((0, 0), (3, 0)), ((3, 0), (1, 0))}"
    by blast
  have no: "\<not> (\<exists>o' \<in> set (getOutports chainNetwork 2). canConnectTo chainNetwork (1, 0) o')"
    by (simp add: outs2)
  with addProcessorOnConnection_splits_or_keeps
         [of chainNetwork "(0, 0)" 2 "(3, 0)" "(1, 0)" "(3, 0)"]
  have neg: "addProcessorOnConnection chainNetwork 2 ((0, 0), (1, 0)) = (Inr False, chainNetwork)"
    by blast
  from pos have set_eq: "set (connections (snd (addProcessorOnConnection chainNetwork 3 ((0, 0), (1, 0))))) =
       {((1, 0), (2, 0)), ((0, 0), (3, 0)), ((3, 0), (1, 0))}"
    by (auto simp: cons)
  from fi fo r1 r2 pos set_eq no neg show ?thesis by blast
qed

section \<open>Properties of replaceProcessor\<close>

lemma copyPropertyValues_step:
  "copyPropertyValues new (op # rest) net =
     copyPropertyValues new rest
       (case copyTarget net new op of Some np \<Rightarrow> setFrom np op net | None \<Rightarrow> net)"
  by (simp add: copyTarget_def split: option.splits)

lemma copyTarget_member:
  assumes "copyTarget net new op = Some np"
  shows "np \<in> set (properties (asOwner (processorAt net new)))
         \<and> getIdentifier (propertyAt net np) = getIdentifier (propertyAt net op)
         \<and> getClassIdentifier (propertyAt net np) = getClassIdentifier (propertyAt net op)"
  using assms find_SomeD [of "\<lambda>p. getIdentifier (propertyAt net p) = getIdentifier (propertyAt net op)"
      "properties (asOwner (processorAt net new))" np]
  by (auto simp: copyTarget_def getPropertyByIdentifier_def split: option.splits if_splits)

lemma pushAlong_no_links:
  assumes "\<forall>l \<in> set ls. getSource l \<noteq> a"
  shows "pushAlong ls [a] visited st = st"
proof -
  from assms have "filter (\<lambda>l. getSource l = a) ls = []"
    by (simp add: filter_empty_conv)
  then show ?thesis by simp
qed

lemma setFrom_plain:
  assumes "\<forall>l \<in> set (links net). getSource l \<noteq> a"
  shows "setFrom a b net =
           net\<lparr>propertyAt := (propertyAt net)
                 (a := (propertyAt net a)\<lparr>val := val (propertyAt net b)\<rparr>)\<rparr>"
  using assms by (simp add: setFrom_def pushAlong_no_links)

lemma setFrom_frame:
  assumes "\<forall>l \<in> set (links net). getSource l \<noteq> a"
  shows "processorAt (setFrom a b net) = processorAt net"
    and "links (setFrom a b net) = links net"
    and "getIdentifier (propertyAt (setFrom a b net) q) = getIdentifier (propertyAt net q)"
    and "getClassIdentifier (propertyAt (setFrom a b net) q) = getClassIdentifier (propertyAt net q)"
    and "q \<noteq> a \<Longrightarrow> propertyAt (setFrom a b net) q = propertyAt net q"
    and "val (propertyAt (setFrom a b net) a) = val (propertyAt net b)"
  by (simp_all add: setFrom_plain [OF assms])

lemma copyTarget_setFrom:
  assumes "\<forall>l \<in> set (links net). getSource l \<noteq> a"
  shows "copyTarget (setFrom a b net) new op = copyTarget net new op"
  by (simp add: copyTarget_def getPropertyByIdentifier_def setFrom_frame [OF assms]
      split: option.splits)

lemma copyStep_frame:
  fixes net new op
  defines "net1 \<equiv> (case copyTarget net new op of Some np \<Rightarrow> setFrom np op net | None \<Rightarrow> net)"
  assumes nolinks: "\<forall>l \<in> set (links net).
                      getSource l \<notin> set (properties (asOwner (processorAt net new)))"
  shows "processorAt net1 = processorAt net"
    and "links net1 = links net"
    and "getIdentifier (propertyAt net1 q) = getIdentifier (propertyAt net q)"
    and "copyTarget net1 new op' = copyTarget net new op'"
    and "copyTarget net new op \<noteq> Some q \<Longrightarrow> propertyAt net1 q = propertyAt net q"
    and "copyTarget net new op = Some q \<Longrightarrow>
           val (propertyAt net1 q) = val (propertyAt net op)"
proof -
  have free: "\<And>np. copyTarget net new op = Some np \<Longrightarrow>
                \<forall>l \<in> set (links net). getSource l \<noteq> np"
    using nolinks copyTarget_member [of net new op] by blast
  show "processorAt net1 = processorAt net"
    unfolding net1_def using free by (auto simp: setFrom_frame split: option.splits)
  show "links net1 = links net"
    unfolding net1_def using free by (auto simp: setFrom_frame split: option.splits)
  show "getIdentifier (propertyAt net1 q) = getIdentifier (propertyAt net q)"
    unfolding net1_def using free by (auto simp: setFrom_frame split: option.splits)
  show "copyTarget net1 new op' = copyTarget net new op'"
    unfolding net1_def using free by (auto simp: copyTarget_setFrom split: option.splits)
  show "copyTarget net new op \<noteq> Some q \<Longrightarrow> propertyAt net1 q = propertyAt net q"
    unfolding net1_def using free by (auto simp: setFrom_frame split: option.splits)
  show "copyTarget net new op = Some q \<Longrightarrow> val (propertyAt net1 q) = val (propertyAt net op)"
    unfolding net1_def using free by (auto simp: setFrom_frame split: option.splits)
qed

lemma copyStep_nolinks:
  assumes "\<forall>l \<in> set (links net). getSource l \<notin> set (properties (asOwner (processorAt net new)))"
  shows "\<forall>l \<in> set (links (case copyTarget net new op of
                             Some np \<Rightarrow> setFrom np op net | None \<Rightarrow> net)).
           getSource l \<notin> set (properties (asOwner (processorAt
             (case copyTarget net new op of Some np \<Rightarrow> setFrom np op net | None \<Rightarrow> net) new)))"
  using assms by (simp only: copyStep_frame(1,2) [OF assms])

lemma copyPropertyValues_processorAt:
  "\<forall>l \<in> set (links net). getSource l \<notin> set (properties (asOwner (processorAt net new))) \<Longrightarrow>
     processorAt (copyPropertyValues new ops net) = processorAt net
     \<and> links (copyPropertyValues new ops net) = links net"
proof (induction ops arbitrary: net)
  case Nil
  show ?case by simp
next
  case (Cons op ops)
  from Cons.IH [OF copyStep_nolinks [OF Cons.prems]]
  show ?case by (simp only: copyPropertyValues_step copyStep_frame(1,2) [OF Cons.prems])
qed

lemma copyPropertyValues_untouched:
  "\<forall>l \<in> set (links net). getSource l \<notin> set (properties (asOwner (processorAt net new))) \<Longrightarrow>
   \<forall>op \<in> set ops. copyTarget net new op \<noteq> Some q \<Longrightarrow>
     propertyAt (copyPropertyValues new ops net) q = propertyAt net q"
proof (induction ops arbitrary: net)
  case Nil
  show ?case by simp
next
  case (Cons op ops)
  let ?net1 = "case copyTarget net new op of Some np \<Rightarrow> setFrom np op net | None \<Rightarrow> net"
  have "\<forall>o' \<in> set ops. copyTarget ?net1 new o' \<noteq> Some q"
    using Cons.prems(2) by (simp add: copyStep_frame(4) [OF Cons.prems(1)])
  from Cons.IH [OF copyStep_nolinks [OF Cons.prems(1)] this]
  have "propertyAt (copyPropertyValues new ops ?net1) q = propertyAt ?net1 q" .
  also have "propertyAt ?net1 q = propertyAt net q"
    using Cons.prems(2) by (intro copyStep_frame(5) [OF Cons.prems(1)]) simp
  finally show ?case by (simp only: copyPropertyValues_step)
qed

lemma copyPropertyValues_copied:
  assumes "\<forall>l \<in> set (links net). getSource l \<notin> set (properties (asOwner (processorAt net new)))"
    and "distinct (map (\<lambda>p. getIdentifier (propertyAt net p)) ops)"
    and "op \<in> set ops" and "copyTarget net new op = Some np"
    and "\<forall>o1 \<in> set ops. \<forall>o2 \<in> set ops. copyTarget net new o1 \<noteq> Some o2"
  shows "val (propertyAt (copyPropertyValues new ops net) np) = val (propertyAt net op)"
  using assms
proof (induction ops arbitrary: net)
  case Nil
  then show ?case by simp
next
  case (Cons x xs)
  let ?net1 = "case copyTarget net new x of Some t \<Rightarrow> setFrom t x net | None \<Rightarrow> net"
  note frame = copyStep_frame [OF Cons.prems(1)]
  note nl1 = copyStep_nolinks [OF Cons.prems(1), of x]
  have ids1: "map (\<lambda>p. getIdentifier (propertyAt ?net1 p)) xs =
              map (\<lambda>p. getIdentifier (propertyAt net p)) xs"
    by (simp add: frame(3))
  show ?case
  proof (cases "op = x")
    case True
    with Cons.prems(4) have tx: "copyTarget net new x = Some np" by simp
    have none: "\<forall>o' \<in> set xs. copyTarget ?net1 new o' \<noteq> Some np"
    proof (intro ballI notI)
      fix o' assume o': "o' \<in> set xs" and t: "copyTarget ?net1 new o' = Some np"
      then have "copyTarget net new o' = Some np" by (simp add: frame(4))
      from copyTarget_member [OF this] copyTarget_member [OF tx]
      have "getIdentifier (propertyAt net o') = getIdentifier (propertyAt net x)" by simp
      with o' Cons.prems(2) show False by (auto simp: image_iff)
    qed
    have "val (propertyAt (copyPropertyValues new xs ?net1) np) = val (propertyAt ?net1 np)"
      using copyPropertyValues_untouched [OF nl1 none] by simp
    also have "\<dots> = val (propertyAt net x)" by (rule frame(6) [OF tx])
    finally show ?thesis using True by (simp only: copyPropertyValues_step)
  next
    case False
    with Cons.prems(3) have mem: "op \<in> set xs" by simp
    have d1: "distinct (map (\<lambda>p. getIdentifier (propertyAt ?net1 p)) xs)"
      using Cons.prems(2) by (simp only: ids1) simp
    have t1: "copyTarget ?net1 new op = Some np"
      using Cons.prems(4) by (simp add: frame(4))
    have n1: "\<forall>o1 \<in> set xs. \<forall>o2 \<in> set xs. copyTarget ?net1 new o1 \<noteq> Some o2"
      using Cons.prems(5) by (simp add: frame(4))
    from Cons.IH [OF nl1 d1 mem t1 n1]
    have "val (propertyAt (copyPropertyValues new xs ?net1) np) = val (propertyAt ?net1 op)" .
    also have "propertyAt ?net1 op = propertyAt net op"
      using Cons.prems(5) mem by (intro frame(5)) simp
    finally show ?thesis by (simp only: copyPropertyValues_step)
  qed
qed

lemma addLink_frame:
  "processorAt (addLink l net) = processorAt net"
  "propertyAt (addLink l net) = propertyAt net"
  by (simp_all add: addLink_def)

lemma moveLinks_frame:
  "processorAt (moveLinks new old ls net) = processorAt net
   \<and> propertyAt (moveLinks new old ls net) = propertyAt net"
  by (induction ls arbitrary: net) (simp_all add: addLink_frame split: option.splits)

lemma removeProcessor_frame:
  "processorAt (removeProcessor p net) = processorAt net"
  "propertyAt (removeProcessor p net) = propertyAt net"
  by (simp_all add: removeProcessor_def)

lemma addConnection_frame:
  "addConnection c net = Inr net' \<Longrightarrow>
     processorAt net' = processorAt net \<and> propertyAt net' = propertyAt net"
  by (auto simp: addConnection_def split: if_splits)

lemma addConnections_frame:
  "processorAt (snd (addConnections cs net)) = processorAt net
   \<and> propertyAt (snd (addConnections cs net)) = propertyAt net"
proof (induction cs arbitrary: net)
  case Nil
  show ?case by simp
next
  case (Cons c cs)
  show ?case
  proof (cases "addConnection c net")
    case (Inl e)
    then show ?thesis by simp
  next
    case (Inr net')
    with Cons.IH [of net'] addConnection_frame [OF Inr] show ?thesis by simp
  qed
qed

lemma copyPropertyValues_keeps_processors:
  "processorAt (copyPropertyValues new ops net) = processorAt net"
  by (induction ops arbitrary: net) (simp_all add: setFrom_def split: option.splits)

lemma replaceProcessor_parts:
  "propertyAt (snd (replaceProcessor net new old)) =
     propertyAt (copyPropertyValues new (properties (asOwner (processorAt net old))) net)"
  "fst (replaceProcessor net new old) = Inr r \<Longrightarrow>
     r = old \<and>
     processorIdentifier (processorAt (snd (replaceProcessor net new old)) new) =
       processorIdentifier (processorAt net old)"
proof -
  let ?cs = "matchOutports net (getOutports net new) (getOutports net old)
               (matchInports net (getInports net new) (getInports net old) [])"
  let ?net1 = "copyPropertyValues new (properties (asOwner (processorAt net old))) net"
  let ?net3 = "removeProcessor old
                 (moveLinks new old (filter (involves ?net1 old) (links ?net1)) ?net1)"
  obtain res net4 where a: "addConnections ?cs ?net3 = (res, net4)"
    by (cases "addConnections ?cs ?net3")
  from addConnections_frame [of ?cs ?net3] a
  have p4: "propertyAt net4 = propertyAt ?net1" and q4: "processorAt net4 = processorAt ?net1"
    by (simp_all add: removeProcessor_frame moveLinks_frame)
  show "propertyAt (snd (replaceProcessor net new old)) = propertyAt ?net1"
    using a p4 by (cases res) (simp_all add: replaceProcessor_def Let_def setIdentifier_def)
  assume r: "fst (replaceProcessor net new old) = Inr r"
  from q4 have q: "processorAt net4 = processorAt net"
    by (simp add: copyPropertyValues_keeps_processors)
  from r a q show "r = old \<and>
     processorIdentifier (processorAt (snd (replaceProcessor net new old)) new) =
       processorIdentifier (processorAt net old)"
    by (cases res) (simp_all add: replaceProcessor_def Let_def setIdentifier_def)
qed

text \<open>
  Claim C4, as stated, fails when a property link starts at a property of the new
  processor: in the linked network the new processor has the properties x and z of the
  old processor's classes and a link from its z to its x. The loop copies 5 to x and then
  8 to z, and the link pushes the 8 on to x, so x does not hold the old value of x.
\<close>

theorem replaceProcessor_linked_counterexample:
  "properties (asOwner (processorAt linkedNetwork 1)) = [10, 12]
   \<and> getPropertyByIdentifier (propertyAt linkedNetwork) (asOwner (processorAt linkedNetwork 3))
       (getIdentifier (propertyAt linkedNetwork 10)) = Some 20
   \<and> getClassIdentifier (propertyAt linkedNetwork 20) =
       getClassIdentifier (propertyAt linkedNetwork 10)
   \<and> val (propertyAt linkedNetwork 10) = 5
   \<and> fst (replaceProcessor linkedNetwork 3 1) = Inr 1
   \<and> val (propertyAt (snd (replaceProcessor linkedNetwork 3 1)) 20) = 8"
proof -
  have ops: "properties (asOwner (processorAt linkedNetwork 1)) = [10, 12]"
    and ops': "properties (asOwner (processorAt linkedNetwork (Suc 0))) = [10, 12]"
    and nps: "properties (asOwner (processorAt linkedNetwork 3)) = [20, 22]"
    and lk: "links linkedNetwork = [(22, 20)]"
    by (simp_all add: linkedNetwork_def chainNetwork_def feedbackNetwork_def
        exampleProcessor_def emptyOwner_def)
  have p10: "propertyAt linkedNetwork 10 = exampleProperty ''x'' ''org.inviwo.IntProperty'' 5"
    and p12: "propertyAt linkedNetwork 12 = exampleProperty ''z'' ''org.inviwo.IntProperty'' 8"
    and p20: "propertyAt linkedNetwork 20 = exampleProperty ''x'' ''org.inviwo.IntProperty'' 0"
    and p22: "propertyAt linkedNetwork 22 = exampleProperty ''z'' ''org.inviwo.IntProperty'' 0"
    by (simp_all add: linkedNetwork_def)
  have found: "getPropertyByIdentifier (propertyAt linkedNetwork)
       (asOwner (processorAt linkedNetwork 3)) (getIdentifier (propertyAt linkedNetwork 10)) = Some 20"
    by (simp add: getPropertyByIdentifier_def nps p10 p20 exampleProperty_def)
  have cls: "getClassIdentifier (propertyAt linkedNetwork 20) =
             getClassIdentifier (propertyAt linkedNetwork 10)"
    by (simp add: p10 p20 exampleProperty_def)
  have v10: "val (propertyAt linkedNetwork 10) = 5" by (simp add: p10 exampleProperty_def)
  have copy: "val (propertyAt (copyPropertyValues 3 [10, 12] linkedNetwork) 20) = 8"
    by (simp add: setFrom_def getPropertyByIdentifier_def nps lk p10 p12 p20 p22
        exampleProperty_def getSource_def getDestination_def)
  have v20: "val (propertyAt (snd (replaceProcessor linkedNetwork 3 1)) 20) = 8"
    using copy by (simp only: replaceProcessor_parts(1) ops)
  have ret: "fst (replaceProcessor linkedNetwork 3 1) = Inr 1"
    by (simp add: replaceProcessor_def Let_def addConnection_def hasFreeSlot_def
        getNumberOfConnections_def getConnectedOutports_def getConnectedInports_def
        getInports_def getOutports_def getInport_def getOutport_def getProcessor_def
        removeProcessor_def linkedNetwork_def replaceNetwork_def chainNetwork_def
        feedbackNetwork_def exampleProcessor_def emptyOwner_def involves_def
        getSource_def getDestination_def setFrom_def getPropertyByIdentifier_def
        exampleProperty_def addLink_def splitByFirst_def split: prod.splits)
  from ops found cls v10 ret v20 show ?thesis by simp
qed

text \<open>
  Claim C4, amended. When \<open>replaceProcessor\<close> returns, the new processor has the
  identifier the old processor had. When no property link of the network starts at a
  property of the new processor, then for a property of the old processor whose
  identifier the new processor has a property for, the value of that new property is the
  old property's value when the class identifiers are equal, and is what it was when they
  differ. The properties of the old processor have distinct identifiers and are other
  objects than the properties of the new processor.
\<close>

theorem replaceProcessor_identifier_and_values:
  assumes ids: "distinct (map (\<lambda>p. getIdentifier (propertyAt net p))
                   (properties (asOwner (processorAt net oldProcessor))))"
    and apart: "set (properties (asOwner (processorAt net oldProcessor))) \<inter>
                set (properties (asOwner (processorAt net newProcessor))) = {}"
  shows "(\<forall>r. fst (replaceProcessor net newProcessor oldProcessor) = Inr r \<longrightarrow>
            r = oldProcessor
            \<and> processorIdentifier
                (processorAt (snd (replaceProcessor net newProcessor oldProcessor)) newProcessor) =
              processorIdentifier (processorAt net oldProcessor))
         \<and> ((\<forall>l \<in> set (links net).
               getSource l \<notin> set (properties (asOwner (processorAt net newProcessor)))) \<longrightarrow>
            (\<forall>oldProp \<in> set (properties (asOwner (processorAt net oldProcessor))). \<forall>newProp.
              getPropertyByIdentifier (propertyAt net) (asOwner (processorAt net newProcessor))
                (getIdentifier (propertyAt net oldProp)) = Some newProp \<longrightarrow>
              val (propertyAt (snd (replaceProcessor net newProcessor oldProcessor)) newProp) =
                (if getClassIdentifier (propertyAt net newProp) =
                    getClassIdentifier (propertyAt net oldProp)
                 then val (propertyAt net oldProp)
                 else val (propertyAt net newProp))))"
proof (intro conjI allI impI ballI)
  let ?ops = "properties (asOwner (processorAt net oldProcessor))"
  fix r assume "fst (replaceProcessor net newProcessor oldProcessor) = Inr r"
  from replaceProcessor_parts(2) [OF this]
  show "r = oldProcessor"
    and "processorIdentifier
          (processorAt (snd (replaceProcessor net newProcessor oldProcessor)) newProcessor) =
        processorIdentifier (processorAt net oldProcessor)"
    by simp_all
next
  let ?ops = "properties (asOwner (processorAt net oldProcessor))"
  fix oldProp newProp
  assume nl: "\<forall>l \<in> set (links net).
               getSource l \<notin> set (properties (asOwner (processorAt net newProcessor)))"
    and mem: "oldProp \<in> set ?ops"
    and found: "getPropertyByIdentifier (propertyAt net) (asOwner (processorAt net newProcessor))
                  (getIdentifier (propertyAt net oldProp)) = Some newProp"
  have notarget: "\<forall>o1 \<in> set ?ops. \<forall>o2 \<in> set ?ops. copyTarget net newProcessor o1 \<noteq> Some o2"
  proof (intro ballI notI)
    fix o1 o2 assume "o2 \<in> set ?ops" and "copyTarget net newProcessor o1 = Some o2"
    with copyTarget_member [of net newProcessor o1 o2] apart show False by auto
  qed
  show "val (propertyAt (snd (replaceProcessor net newProcessor oldProcessor)) newProp) =
          (if getClassIdentifier (propertyAt net newProp) =
              getClassIdentifier (propertyAt net oldProp)
           then val (propertyAt net oldProp)
           else val (propertyAt net newProp))"
  proof (cases "getClassIdentifier (propertyAt net newProp) =
                getClassIdentifier (propertyAt net oldProp)")
    case True
    with found have "copyTarget net newProcessor oldProp = Some newProp"
      by (simp add: copyTarget_def)
    from copyPropertyValues_copied [OF nl ids mem this notarget] True
    show ?thesis by (simp add: replaceProcessor_parts(1))
  next
    case False
    have none: "\<forall>op \<in> set ?ops. copyTarget net newProcessor op \<noteq> Some newProp"
    proof (intro ballI notI)
      fix op assume op: "op \<in> set ?ops" and t: "copyTarget net newProcessor op = Some newProp"
      from copyTarget_member [OF t]
      have i: "getIdentifier (propertyAt net newProp) = getIdentifier (propertyAt net op)"
        and k: "getClassIdentifier (propertyAt net newProp) = getClassIdentifier (propertyAt net op)"
        by simp_all
      from found have "getIdentifier (propertyAt net newProp) = getIdentifier (propertyAt net oldProp)"
        using find_SomeD [of "\<lambda>p. getIdentifier (propertyAt net p) = getIdentifier (propertyAt net oldProp)"
            "properties (asOwner (processorAt net newProcessor))" newProp]
        by (simp add: getPropertyByIdentifier_def)
      with i have "getIdentifier (propertyAt net op) = getIdentifier (propertyAt net oldProp)"
        by simp
      with ids op mem have "op = oldProp"
        by (auto simp: distinct_map inj_on_def)
      with k False show False by simp
    qed
    from copyPropertyValues_untouched [OF nl none] False
    show ?thesis by (simp add: replaceProcessor_parts(1))
  qed
qed

theorem replaceProcessor_identifier_and_values_witness:
  "distinct (map (\<lambda>p. getIdentifier (propertyAt replaceNetwork p))
      (properties (asOwner (processorAt replaceNetwork 1))))
   \<and> set (properties (asOwner (processorAt replaceNetwork 1))) \<inter>
       set (properties (asOwner (processorAt replaceNetwork 3))) = {}
   \<and> list_all (\<lambda>l. getSource l \<notin> set (properties (asOwner (processorAt replaceNetwork 3))))
       (links replaceNetwork)
   \<and> 10 \<in> set (properties (asOwner (processorAt replaceNetwork 1)))
   \<and> 11 \<in> set (properties (asOwner (processorAt replaceNetwork 1)))
   \<and> fst (replaceProcessor replaceNetwork 3 1) = Inr 1
   \<and> processorIdentifier (processorAt (snd (replaceProcessor replaceNetwork 3 1)) 3) = ''Filter''
   \<and> val (propertyAt (snd (replaceProcessor replaceNetwork 3 1)) 20) = 5
   \<and> val (propertyAt (snd (replaceProcessor replaceNetwork 3 1)) 21) = 1"
proof -
  have ops: "properties (asOwner (processorAt replaceNetwork 1)) = [10, 11]"
    and nps: "properties (asOwner (processorAt replaceNetwork 3)) = [20, 21]"
    and idn: "processorIdentifier (processorAt replaceNetwork 1) = ''Filter''"
    and lk: "links replaceNetwork = [(10, 30)]"
    by (simp_all add: replaceNetwork_def chainNetwork_def feedbackNetwork_def
        exampleProcessor_def emptyOwner_def)
  have ops': "properties (asOwner (processorAt replaceNetwork (Suc 0))) = [10, 11]"
    and idn': "processorIdentifier (processorAt replaceNetwork (Suc 0)) = ''Filter''"
    using ops idn by simp_all
  have p10: "propertyAt replaceNetwork 10 = exampleProperty ''x'' ''org.inviwo.IntProperty'' 5"
    and p11: "propertyAt replaceNetwork 11 = exampleProperty ''y'' ''org.inviwo.FloatProperty'' 7"
    and p20: "propertyAt replaceNetwork 20 = exampleProperty ''x'' ''org.inviwo.IntProperty'' 0"
    and p21: "propertyAt replaceNetwork 21 = exampleProperty ''y'' ''org.inviwo.IntProperty'' 1"
    by (simp_all add: replaceNetwork_def)
  have h1: "distinct (map (\<lambda>p. getIdentifier (propertyAt replaceNetwork p))
              (properties (asOwner (processorAt replaceNetwork 1))))"
    by (simp add: ops' p10 p11 exampleProperty_def)
  have h2: "set (properties (asOwner (processorAt replaceNetwork 1))) \<inter>
            set (properties (asOwner (processorAt replaceNetwork 3))) = {}"
    by (simp add: ops' nps)
  have h3: "\<forall>l \<in> set (links replaceNetwork).
              getSource l \<notin> set (properties (asOwner (processorAt replaceNetwork 3)))"
    by (simp add: lk nps getSource_def)
  have f1: "getPropertyByIdentifier (propertyAt replaceNetwork)
              (asOwner (processorAt replaceNetwork 3))
              (getIdentifier (propertyAt replaceNetwork 10)) = Some 20"
    by (simp add: getPropertyByIdentifier_def nps p10 p20 exampleProperty_def)
  have f2: "getPropertyByIdentifier (propertyAt replaceNetwork)
              (asOwner (processorAt replaceNetwork 3))
              (getIdentifier (propertyAt replaceNetwork 11)) = Some 21"
    by (simp add: getPropertyByIdentifier_def nps p11 p20 p21 exampleProperty_def)
  have ret: "fst (replaceProcessor replaceNetwork 3 1) = Inr 1"
    by (simp add: replaceProcessor_def Let_def addConnection_def hasFreeSlot_def
        getNumberOfConnections_def getConnectedOutports_def getConnectedInports_def
        getInports_def getOutports_def getInport_def getOutport_def getProcessor_def
        removeProcessor_def replaceNetwork_def chainNetwork_def
        feedbackNetwork_def exampleProcessor_def emptyOwner_def involves_def
        getSource_def getDestination_def setFrom_def getPropertyByIdentifier_def
        exampleProperty_def addLink_def splitByFirst_def split: prod.splits)
  note t = replaceProcessor_identifier_and_values [OF h1 h2]
  from t ret have a: "processorIdentifier (processorAt (snd (replaceProcessor replaceNetwork 3 1)) 3)
                    = ''Filter''"
    by (simp add: idn')
  from t h3 have "\<forall>oldProp \<in> set [10, 11]. \<forall>newProp.
      getPropertyByIdentifier (propertyAt replaceNetwork) (asOwner (processorAt replaceNetwork 3))
        (getIdentifier (propertyAt replaceNetwork oldProp)) = Some newProp \<longrightarrow>
      val (propertyAt (snd (replaceProcessor replaceNetwork 3 1)) newProp) =
        (if getClassIdentifier (propertyAt replaceNetwork newProp) =
            getClassIdentifier (propertyAt replaceNetwork oldProp)
         then val (propertyAt replaceNetwork oldProp)
         else val (propertyAt replaceNetwork newProp))"
    unfolding ops by blast
  with f1 f2 have b: "val (propertyAt (snd (replaceProcessor replaceNetwork 3 1)) 20) = 5"
    and c: "val (propertyAt (snd (replaceProcessor replaceNetwork 3 1)) 21) = 1"
    by (auto simp: p10 p11 p20 p21 exampleProperty_def)
  from h1 h2 h3 ret a b c show ?thesis by (simp add: ops' list_all_iff)
qed

section \<open>Properties of the topological sort\<close>

subsection \<open>Termination within the fuel\<close>

lemma card_Diff_insert_less:
  assumes "finite V" "p \<in> V" "p \<notin> S" "card (V - S) \<le> Suc n"
  shows "card (V - insert p S) \<le> n"
proof -
  have "V - insert p S = (V - S) - {p}" by auto
  moreover have "p \<in> V - S" using assms by simp
  moreover have "finite (V - S)" using assms by simp
  ultimately have "card (V - insert p S) = card (V - S) - 1" by simp
  with assms show ?thesis by simp
qed

lemma card_Diff_positive:
  assumes "finite V" "p \<in> V" "p \<notin> S"
  shows "0 < card (V - S)"
proof -
  have "p \<in> V - S" using assms by simp
  moreover have "finite (V - S)" using assms by simp
  ultimately show ?thesis using card_gt_0_iff by blast
qed

lemma traverse_returns:
  "finite V \<Longrightarrow> (\<forall>x. set (upstreamProcessors net cf x) \<subseteq> V) \<Longrightarrow> p \<in> V \<Longrightarrow>
     card (V - fst st) \<le> fuel \<Longrightarrow>
     \<exists>st'. traverseNetwork fuel net cf p st = Some st' \<and> fst st \<subseteq> fst st'"
  "finite V \<Longrightarrow> (\<forall>x. set (upstreamProcessors net cf x) \<subseteq> V) \<Longrightarrow> set ps \<subseteq> V \<Longrightarrow>
     card (V - fst st) \<le> fuel \<Longrightarrow>
     \<exists>st'. traverseEach fuel net cf ps st = Some st' \<and> fst st \<subseteq> fst st'"
proof (induction fuel net cf p st and fuel net cf ps st rule: traverseNetwork_traverseEach.induct)
  case (1 fuel net cf p S L)
  show ?case
  proof (cases "p \<in> S")
    case True
    then show ?thesis by simp
  next
    case False
    have "0 < card (V - S)" using card_Diff_positive [OF "1.prems"(1) "1.prems"(3) False] .
    with "1.prems"(4) obtain fuel' where fuel: "fuel = Suc fuel'"
      by (cases fuel) auto
    have c: "card (V - fst (insert p S, L)) \<le> fuel'"
      using card_Diff_insert_less [OF "1.prems"(1) "1.prems"(3) False] "1.prems"(4) fuel by simp
    have sub: "set (upstreamProcessors net cf p) \<subseteq> V" using "1.prems"(2) by blast
    from "1.IH" [OF False fuel "1.prems"(1) "1.prems"(2) sub c]
    obtain st1 where st1: "traverseEach fuel' net cf (upstreamProcessors net cf p) (insert p S, L) = Some st1"
      and mono: "insert p S \<subseteq> fst st1" by auto
    show ?thesis using False fuel st1 mono by (cases st1) auto
  qed
next
  case (2 fuel net cf st)
  show ?case by simp
next
  case (3 fuel net cf p ps st)
  have pV: "p \<in> V" and psV: "set ps \<subseteq> V" using "3.prems"(3) by auto
  from "3.IH"(1) [OF "3.prems"(1) "3.prems"(2) pV "3.prems"(4)]
  obtain st1 where st1: "traverseNetwork fuel net cf p st = Some st1" and m1: "fst st \<subseteq> fst st1"
    by auto
  have "V - fst st1 \<subseteq> V - fst st" using m1 by auto
  then have "card (V - fst st1) \<le> card (V - fst st)"
    using "3.prems"(1) by (simp add: card_mono)
  then have c1: "card (V - fst st1) \<le> fuel" using "3.prems"(4) by simp
  from "3.IH"(2) [OF st1 "3.prems"(1) "3.prems"(2) psV c1]
  obtain st2 where "traverseEach fuel net cf ps st1 = Some st2" and "fst st1 \<subseteq> fst st2"
    by auto
  with st1 m1 show ?case by auto
qed

subsection \<open>What a traversal visits\<close>

lemma upstream_converse_image:
  "(upstreamOf net cf)\<inverse> `` {x} = set (upstreamProcessors net cf x)"
  by (auto simp: upstreamOf_def)

lemma visitStep_visited:
  assumes "roots \<subseteq> fst st"
  shows "visitStep E roots st st"
  using assms by (simp add: visitStep_def)

lemma visitStep_mono: "visitStep E roots st st' \<Longrightarrow> fst st \<subseteq> fst st'"
  by (auto simp: visitStep_def)

lemma visitStep_seq:
  assumes a: "visitStep E {p} st st1" and b: "visitStep E (set ps) st1 st2"
  shows "visitStep E (set (p # ps)) st st2"
proof -
  from a obtain n1 where n1: "snd st1 = snd st @ n1" "fst st1 = fst st \<union> set n1"
    "distinct n1" "set n1 \<inter> fst st = {}"
    "\<forall>x \<in> set n1. (x, p) \<in> E\<^sup>* \<and> E\<inverse> `` {x} \<subseteq> fst st1" and p1: "p \<in> fst st1"
    by (auto simp: visitStep_def)
  from b obtain n2 where n2: "snd st2 = snd st1 @ n2" "fst st2 = fst st1 \<union> set n2"
    "distinct n2" "set n2 \<inter> fst st1 = {}"
    "\<forall>x \<in> set n2. (\<exists>r \<in> set ps. (x, r) \<in> E\<^sup>*) \<and> E\<inverse> `` {x} \<subseteq> fst st2"
    and p2: "set ps \<subseteq> fst st2"
    by (auto simp: visitStep_def)
  have m: "fst st1 \<subseteq> fst st2" using n2(2) by auto
  have 1: "snd st2 = snd st @ (n1 @ n2)" using n1(1) n2(1) by simp
  have 2: "fst st2 = fst st \<union> set (n1 @ n2)" using n1(2) n2(2) by auto
  have 3: "distinct (n1 @ n2)" using n1(2,3) n2(3,4) by auto
  have 4: "set (n1 @ n2) \<inter> fst st = {}" using n1(2,4) n2(4) by auto
  have 5: "\<forall>x \<in> set (n1 @ n2). (\<exists>r \<in> set (p # ps). (x, r) \<in> E\<^sup>*) \<and> E\<inverse> `` {x} \<subseteq> fst st2"
  proof
    fix x assume "x \<in> set (n1 @ n2)"
    then consider "x \<in> set n1" | "x \<in> set n2" by auto
    then show "(\<exists>r \<in> set (p # ps). (x, r) \<in> E\<^sup>*) \<and> E\<inverse> `` {x} \<subseteq> fst st2"
    proof cases
      case 1
      with n1(5) have "(x, p) \<in> E\<^sup>*" and "E\<inverse> `` {x} \<subseteq> fst st1" by auto
      with m show ?thesis by auto
    next
      case 2
      with n2(5) show ?thesis by auto
    qed
  qed
  have 6: "set (p # ps) \<subseteq> fst st2" using p1 p2 m by auto
  show ?thesis unfolding visitStep_def using 1 2 3 4 5 6 by blast
qed

lemma visitStep_push:
  assumes new: "p \<notin> S"
    and a: "visitStep E (E\<inverse> `` {p}) (insert p S, L) (S1, L1)"
  shows "visitStep E {p} (S, L) (S1, L1 @ [p])"
proof -
  from a obtain n1 where n1: "L1 = L @ n1" "S1 = insert p S \<union> set n1"
    "distinct n1" "set n1 \<inter> insert p S = {}"
    "\<forall>x \<in> set n1. (\<exists>r \<in> E\<inverse> `` {p}. (x, r) \<in> E\<^sup>*) \<and> E\<inverse> `` {x} \<subseteq> S1"
    and up: "E\<inverse> `` {p} \<subseteq> S1"
    by (auto simp: visitStep_def)
  have 1: "L1 @ [p] = L @ (n1 @ [p])" using n1(1) by simp
  have 2: "S1 = S \<union> set (n1 @ [p])" using n1(2) by auto
  have 3: "distinct (n1 @ [p])" using n1(3,4) by auto
  have 4: "set (n1 @ [p]) \<inter> S = {}" using n1(4) new by auto
  have 5: "\<forall>x \<in> set (n1 @ [p]). (\<exists>r \<in> {p}. (x, r) \<in> E\<^sup>*) \<and> E\<inverse> `` {x} \<subseteq> S1"
  proof
    fix x assume "x \<in> set (n1 @ [p])"
    then consider "x \<in> set n1" | "x = p" by auto
    then show "(\<exists>r \<in> {p}. (x, r) \<in> E\<^sup>*) \<and> E\<inverse> `` {x} \<subseteq> S1"
    proof cases
      case 1
      with n1(5) obtain r where "(r, p) \<in> E" "(x, r) \<in> E\<^sup>*" "E\<inverse> `` {x} \<subseteq> S1" by auto
      then show ?thesis by (auto intro: rtrancl_into_rtrancl)
    next
      case 2
      with up show ?thesis by auto
    qed
  qed
  have 6: "{p} \<subseteq> S1" using n1(2) by auto
  show ?thesis unfolding visitStep_def fst_conv snd_conv using 1 2 3 4 5 6 by blast
qed

lemma traverse_visitStep:
  "traverseNetwork fuel net cf p st = Some st' \<Longrightarrow> visitStep (upstreamOf net cf) {p} st st'"
  "traverseEach fuel net cf ps st = Some st' \<Longrightarrow> visitStep (upstreamOf net cf) (set ps) st st'"
proof (induction fuel net cf p st and fuel net cf ps st arbitrary: st' and st'
       rule: traverseNetwork_traverseEach.induct)
  case (1 fuel net cf p S L)
  show ?case
  proof (cases "p \<in> S")
    case True
    with "1.prems" have "st' = (S, L)" by simp
    with True show ?thesis by (simp add: visitStep_visited)
  next
    case False
    with "1.prems" obtain fuel' where fuel: "fuel = Suc fuel'"
      by (cases fuel) auto
    from "1.prems" False fuel obtain S1 L1 where
      r: "traverseEach fuel' net cf (upstreamProcessors net cf p) (insert p S, L) = Some (S1, L1)"
      and st': "st' = (S1, L1 @ [p])"
      by (auto split: option.splits)
    from "1.IH" [OF False fuel r]
    have "visitStep (upstreamOf net cf) ((upstreamOf net cf)\<inverse> `` {p}) (insert p S, L) (S1, L1)"
      by (simp add: upstream_converse_image)
    from visitStep_push [OF False this] st' show ?thesis by simp
  qed
next
  case (2 fuel net cf st)
  then show ?case by (simp add: visitStep_visited)
next
  case (3 fuel net cf p ps st)
  from "3.prems" obtain st1 where
    a: "traverseNetwork fuel net cf p st = Some st1" and b: "traverseEach fuel net cf ps st1 = Some st'"
    by (auto split: option.splits)
  from visitStep_seq [OF "3.IH"(1) [OF a] "3.IH"(2) [OF a b]] show ?case .
qed

subsection \<open>The order of the vector on an acyclic graph\<close>

lemma finishedInOrder_snoc:
  assumes "finishedInOrder E xs" and "E\<inverse> `` {p} \<subseteq> set xs"
  shows "finishedInOrder E (xs @ [p])"
  unfolding finishedInOrder_def
proof (intro allI impI)
  fix i assume "i < length (xs @ [p])"
  then consider "i < length xs" | "i = length xs" by fastforce
  then show "E\<inverse> `` {(xs @ [p]) ! i} \<subseteq> set (take i (xs @ [p]))"
  proof cases
    case 1
    with assms(1) show ?thesis by (simp add: finishedInOrder_def nth_append)
  next
    case 2
    with assms(2) show ?thesis by simp
  qed
qed

lemma orderPost_visited:
  assumes "orderPre E roots st" and "roots \<subseteq> set (snd st)"
  shows "orderPost E roots st st"
  using assms by (simp add: orderPre_def orderPost_def)

lemma orderPre_next:
  assumes pre: "orderPre E (set (p # ps)) st" and post: "orderPost E {p} st st1"
  shows "orderPre E (set ps) st1"
  using assms by (simp add: orderPre_def orderPost_def)

lemma orderPre_first: "orderPre E (set (p # ps)) st \<Longrightarrow> orderPre E {p} st"
  by (simp add: orderPre_def)

lemma orderPost_seq:
  assumes "orderPost E {p} st st1" and "orderPost E (set ps) st1 st2"
  shows "orderPost E (set (p # ps)) st st2"
  using assms by (auto simp: orderPost_def)

lemma orderPre_descend:
  assumes pre: "orderPre E {p} (S, L)" and new: "p \<notin> S"
  shows "orderPre E (E\<inverse> `` {p}) (insert p S, L)"
  unfolding orderPre_def fst_conv snd_conv
proof (intro conjI ballI)
  from pre have sub: "set L \<subseteq> S" and fin: "finishedInOrder E L"
    and down: "\<forall>a \<in> running (S, L). (p, a) \<in> E\<^sup>+"
    by (auto simp: orderPre_def)
  show "set L \<subseteq> insert p S" using sub by auto
  show "finishedInOrder E L" by (rule fin)
  fix r a assume r: "r \<in> E\<inverse> `` {p}" and a: "a \<in> running (insert p S, L)"
  from r have rp: "(r, p) \<in> E" by auto
  from a consider "a = p" | "a \<in> running (S, L)" by (auto simp: running_def)
  then show "(r, a) \<in> E\<^sup>+"
  proof cases
    case 1
    with rp show ?thesis by auto
  next
    case 2
    with down have "(p, a) \<in> E\<^sup>+" by blast
    with rp show ?thesis by (rule trancl_into_trancl2)
  qed
qed

lemma orderPost_push:
  assumes pre: "orderPre E {p} (S, L)" and new: "p \<notin> S"
    and post: "orderPost E (E\<inverse> `` {p}) (insert p S, L) (S1, L1)"
  shows "orderPost E {p} (S, L) (S1, L1 @ [p])"
proof -
  from pre have sub: "set L \<subseteq> S" by (auto simp: orderPre_def)
  then have pL: "p \<notin> set L" using new by auto
  from post have s1: "set L1 \<subseteq> S1" and f1: "finishedInOrder E L1"
    and r1: "running (S1, L1) = running (insert p S, L)"
    and u1: "E\<inverse> `` {p} \<subseteq> set L1" and l1: "set L \<subseteq> set L1"
    by (auto simp: orderPost_def)
  have "p \<in> running (insert p S, L)" using pL by (simp add: running_def)
  with r1 have prun: "p \<in> running (S1, L1)" by simp
  then have pS1: "p \<in> S1" and pL1: "p \<notin> set L1" by (auto simp: running_def)
  have 1: "set (L1 @ [p]) \<subseteq> S1" using s1 pS1 by auto
  have 2: "finishedInOrder E (L1 @ [p])" using finishedInOrder_snoc [OF f1 u1] .
  have "running (S1, L1 @ [p]) = running (S1, L1) - {p}" by (auto simp: running_def)
  also have "\<dots> = running (insert p S, L) - {p}" using r1 by simp
  also have "\<dots> = running (S, L)" using new by (auto simp: running_def)
  finally have 3: "running (S1, L1 @ [p]) = running (S, L)" .
  show ?thesis unfolding orderPost_def fst_conv snd_conv using 1 2 3 l1 by auto
qed

lemma orderPost_already:
  assumes ac: "acyclic E" and pre: "orderPre E {p} (S, L)" and old: "p \<in> S"
  shows "orderPost E {p} (S, L) (S, L)"
proof -
  have "p \<in> set L"
  proof (rule ccontr)
    assume "p \<notin> set L"
    with old have "p \<in> running (S, L)" by (simp add: running_def)
    with pre have "(p, p) \<in> E\<^sup>+" by (auto simp: orderPre_def)
    with ac show False by (auto simp: acyclic_def)
  qed
  with pre show ?thesis by (simp add: orderPost_visited)
qed

lemma traverse_orderPost:
  "traverseNetwork fuel net cf p st = Some st' \<Longrightarrow> acyclic (upstreamOf net cf) \<Longrightarrow>
     orderPre (upstreamOf net cf) {p} st \<Longrightarrow> orderPost (upstreamOf net cf) {p} st st'"
  "traverseEach fuel net cf ps st = Some st' \<Longrightarrow> acyclic (upstreamOf net cf) \<Longrightarrow>
     orderPre (upstreamOf net cf) (set ps) st \<Longrightarrow> orderPost (upstreamOf net cf) (set ps) st st'"
proof (induction fuel net cf p st and fuel net cf ps st arbitrary: st' and st'
       rule: traverseNetwork_traverseEach.induct)
  case (1 fuel net cf p S L)
  show ?case
  proof (cases "p \<in> S")
    case True
    with "1.prems"(1) have "st' = (S, L)" by simp
    with orderPost_already [OF "1.prems"(2) "1.prems"(3) True] show ?thesis by simp
  next
    case False
    with "1.prems"(1) obtain fuel' where fuel: "fuel = Suc fuel'"
      by (cases fuel) auto
    from "1.prems"(1) False fuel obtain S1 L1 where
      r: "traverseEach fuel' net cf (upstreamProcessors net cf p) (insert p S, L) = Some (S1, L1)"
      and st': "st' = (S1, L1 @ [p])"
      by (auto split: option.splits)
    have pre': "orderPre (upstreamOf net cf) (set (upstreamProcessors net cf p)) (insert p S, L)"
      using orderPre_descend [OF "1.prems"(3) False] by (simp add: upstream_converse_image)
    from "1.IH" [OF False fuel r "1.prems"(2) pre']
    have "orderPost (upstreamOf net cf) ((upstreamOf net cf)\<inverse> `` {p}) (insert p S, L) (S1, L1)"
      by (simp add: upstream_converse_image)
    from orderPost_push [OF "1.prems"(3) False this] st' show ?thesis by simp
  qed
next
  case (2 fuel net cf st)
  then show ?case by (simp add: orderPost_visited)
next
  case (3 fuel net cf p ps st)
  from "3.prems"(1) obtain st1 where
    a: "traverseNetwork fuel net cf p st = Some st1" and b: "traverseEach fuel net cf ps st1 = Some st'"
    by (auto split: option.splits)
  have p1: "orderPost (upstreamOf net cf) {p} st st1"
    using "3.IH"(1) [OF a "3.prems"(2) orderPre_first [OF "3.prems"(3)]] .
  have p2: "orderPost (upstreamOf net cf) (set ps) st1 st'"
    using "3.IH"(2) [OF a b "3.prems"(2) orderPre_next [OF "3.prems"(3) p1]] .
  from orderPost_seq [OF p1 p2] show ?case .
qed

lemma finishedInOrder_respects:
  assumes fin: "finishedInOrder E xs" and dist: "distinct xs"
  shows "respectsDependencies E xs"
  unfolding respectsDependencies_def
proof (intro allI impI)
  fix i j
  assume i: "i < length xs" and j: "j < length xs" and dep: "(xs ! j, xs ! i) \<in> E\<^sup>+"
  have direct: "\<And>y k. k < length xs \<Longrightarrow> (y, xs ! k) \<in> E \<Longrightarrow> \<exists>m < k. xs ! m = y"
  proof -
    fix y k assume k: "k < length xs" and e: "(y, xs ! k) \<in> E"
    from fin k have "E\<inverse> `` {xs ! k} \<subseteq> set (take k xs)" by (simp add: finishedInOrder_def)
    with e have "y \<in> set (take k xs)" by auto
    then obtain m where "m < length (take k xs)" "take k xs ! m = y"
      by (auto simp: in_set_conv_nth)
    with k show "\<exists>m < k. xs ! m = y" by auto
  qed
  from dep have "\<forall>k < length xs. xs ! k = xs ! i \<longrightarrow> j < k"
  proof (induction rule: trancl_induct)
    case (base y)
    show ?case
    proof (intro allI impI)
      fix k assume k: "k < length xs" and eq: "xs ! k = y"
      from direct [OF k] base eq obtain m where m: "m < k" "xs ! m = xs ! j" by auto
      with k j dist have "m = j" by (simp add: nth_eq_iff_index_eq)
      with m show "j < k" by simp
    qed
  next
    case (step y z)
    show ?case
    proof (intro allI impI)
      fix k assume k: "k < length xs" and eq: "xs ! k = z"
      from direct [OF k] step(2) eq obtain m where m: "m < k" "xs ! m = y" by auto
      with k step.IH have "j < m" by auto
      with m show "j < k" by simp
    qed
  qed
  with i show "j < i" by blast
qed

subsection \<open>The sort as a whole\<close>

lemma upstreamOf_connection:
  assumes "(q, p) \<in> upstreamOf net cf"
  shows "\<exists>c. c \<in> set (connections net) \<and> getProcessor (getOutport c) = q
           \<and> getProcessor (getInport c) = p \<and> cf p (getInport c) (getOutport c)"
proof -
  from assms obtain port outp where port: "port \<in> set (getInports net p)"
    and outp: "outp \<in> set (getConnectedOutports net port)" and f: "cf p port outp"
    and q: "q = getProcessor outp"
    by (auto simp: upstreamOf_def upstreamProcessors_def)
  from outp obtain c where c: "c \<in> set (connections net)" "getInport c = port" "getOutport c = outp"
    by (auto simp: getConnectedOutports_def)
  from port have "getProcessor port = p" by (auto simp: getInports_def getProcessor_def)
  with c f q show ?thesis by (intro exI [of _ c]) simp
qed

lemma upstreamOf_mono:
  "upstreamOf net cf \<subseteq> upstreamOf net (\<lambda>p from to. True)"
  by (auto simp: upstreamOf_def upstreamProcessors_def)

lemma topologicalSortWith_returns:
  "\<exists>st. traverseEach (length (processors net) + length (connections net)) net cf
           (filter (\<lambda>p. isSink (processorAt net p)) (processors net)) ({}, []) = Some st"
proof -
  let ?sinks = "filter (\<lambda>p. isSink (processorAt net p)) (processors net)"
  let ?U = "(\<lambda>c. getProcessor (getOutport c)) ` set (connections net)"
  let ?V = "set ?sinks \<union> ?U"
  have fin: "finite ?V" by simp
  have up: "\<forall>x. set (upstreamProcessors net cf x) \<subseteq> ?V"
  proof (intro allI subsetI)
    fix x q assume "q \<in> set (upstreamProcessors net cf x)"
    then have "(q, x) \<in> upstreamOf net cf" by (simp add: upstreamOf_def)
    from upstreamOf_connection [OF this] show "q \<in> ?V" by auto
  qed
  have "card ?V \<le> card (set ?sinks) + card ?U" by (rule card_Un_le)
  also have "card (set ?sinks) \<le> length ?sinks" by (rule card_length)
  also have "length ?sinks \<le> length (processors net)" by simp
  also have "card ?U \<le> card (set (connections net))" by (rule card_image_le) simp
  also have "card (set (connections net)) \<le> length (connections net)" by (rule card_length)
  finally have "card ?V \<le> length (processors net) + length (connections net)" by simp
  then have c: "card (?V - fst ({}, [])) \<le> length (processors net) + length (connections net)"
    by simp
  have s: "set ?sinks \<subseteq> ?V" by auto
  from traverse_returns(2) [OF fin up s c] show ?thesis by auto
qed

lemma closed_upstream:
  assumes cl: "\<forall>x \<in> S. E\<inverse> `` {x} \<subseteq> S" and r: "(p, s) \<in> E\<^sup>*" and s: "s \<in> S"
  shows "p \<in> S"
  using r s
proof (induction rule: converse_rtrancl_induct)
  case base
  then show ?case .
next
  case (step y z)
  then have "z \<in> S" by simp
  with cl step(1) show ?case by auto
qed

lemma finishedInOrder_listed:
  assumes fin: "finishedInOrder E xs"
  shows "upstreamListedBefore E xs"
  unfolding upstreamListedBefore_def
proof (intro allI impI)
  fix i q
  assume i: "i < length xs" and dep: "(q, xs ! i) \<in> E\<^sup>+"
  have direct: "\<And>y k. k < length xs \<Longrightarrow> (y, xs ! k) \<in> E \<Longrightarrow> \<exists>m < k. xs ! m = y"
  proof -
    fix y k assume k: "k < length xs" and e: "(y, xs ! k) \<in> E"
    from fin k have "E\<inverse> `` {xs ! k} \<subseteq> set (take k xs)" by (simp add: finishedInOrder_def)
    with e have "y \<in> set (take k xs)" by auto
    then obtain m where "m < length (take k xs)" "take k xs ! m = y"
      by (auto simp: in_set_conv_nth)
    with k show "\<exists>m < k. xs ! m = y" by auto
  qed
  from dep have "\<forall>k < length xs. xs ! k = xs ! i \<longrightarrow> (\<exists>j < k. xs ! j = q)"
  proof (induction rule: trancl_induct)
    case (base y)
    show ?case
    proof (intro allI impI)
      fix k assume k: "k < length xs" and eq: "xs ! k = y"
      from direct [OF k] base eq show "\<exists>j < k. xs ! j = q" by auto
    qed
  next
    case (step y z)
    show ?case
    proof (intro allI impI)
      fix k assume k: "k < length xs" and eq: "xs ! k = z"
      from direct [OF k] step(2) eq obtain m where m: "m < k" "xs ! m = y" by auto
      from m k have "m < length xs" by simp
      with step.IH m(2) obtain j where "j < m" "xs ! j = q" by blast
      with m show "\<exists>j < k. xs ! j = q" by (intro exI [of _ j]) simp
    qed
  qed
  with i show "\<exists>j < i. xs ! j = q" by blast
qed

lemma upstreamOf_dependencies:
  assumes att: "connectionsAttached net"
  shows "upstreamOf net cf = dependencies net cf"
proof (intro equalityI subsetI)
  fix x assume x: "x \<in> upstreamOf net cf"
  obtain q p where qp: "x = (q, p)" by (cases x)
  from upstreamOf_connection [of q p net cf] x qp show "x \<in> dependencies net cf"
    by (auto simp: dependencies_def)
next
  fix x assume "x \<in> dependencies net cf"
  then obtain c where c: "c \<in> set (connections net)"
    and f: "cf (getProcessor (getInport c)) (getInport c) (getOutport c)"
    and x: "x = (getProcessor (getOutport c), getProcessor (getInport c))"
    by (auto simp: dependencies_def)
  let ?p = "getProcessor (getInport c)"
  from att c have port: "getInport c \<in> set (getInports net ?p)"
    by (simp add: connectionsAttached_def list_all_iff)
  from c have "getOutport c \<in> set (getConnectedOutports net (getInport c))"
    by (auto simp: getConnectedOutports_def)
  with f have "getOutport c \<in> set (filter (cf ?p (getInport c))
                 (getConnectedOutports net (getInport c)))" by simp
  with port have "getProcessor (getOutport c) \<in> set (upstreamProcessors net cf ?p)"
    unfolding upstreamProcessors_def by (auto intro!: bexI [of _ "getInport c"])
  with x show "x \<in> upstreamOf net cf" by (simp add: upstreamOf_def)
qed

lemma dependencies_mono: "dependencies net cf \<subseteq> dependencies net (\<lambda>p from to. True)"
  by (auto simp: dependencies_def)

lemma topologicalSortWith_properties:
  assumes att: "connectionsAttached net"
  shows "\<exists>sortedVec. topologicalSortWith cf net = Some sortedVec \<and> distinct sortedVec
     \<and> set sortedVec =
         {p. \<exists>s. s \<in> set (processors net) \<and> isSink (processorAt net s)
                \<and> (p, s) \<in> (dependencies net cf)\<^sup>*}
     \<and> (acyclic (dependencies net cf) \<longrightarrow>
          respectsDependencies (dependencies net cf) sortedVec
          \<and> upstreamListedBefore (dependencies net cf) sortedVec)"
proof -
  let ?sinks = "filter (\<lambda>p. isSink (processorAt net p)) (processors net)"
  let ?E = "upstreamOf net cf"
  have E: "dependencies net cf = ?E" using upstreamOf_dependencies [OF att] by simp
  from topologicalSortWith_returns [of net cf] obtain S L where
    r: "traverseEach (length (processors net) + length (connections net)) net cf ?sinks ({}, [])
          = Some (S, L)"
    by (cases) auto
  then have res: "topologicalSortWith cf net = Some L"
    by (simp add: topologicalSortWith_def)
  from traverse_visitStep(2) [OF r] have v: "visitStep ?E (set ?sinks) ({}, []) (S, L)" .
  then have sinks: "set ?sinks \<subseteq> S" and SL: "S = set L" and dist: "distinct L"
    and reach: "\<forall>x \<in> set L. \<exists>r \<in> set ?sinks. (x, r) \<in> ?E\<^sup>*"
    and closed: "\<forall>x \<in> set L. ?E\<inverse> `` {x} \<subseteq> S"
    by (auto simp: visitStep_def)
  have set_eq: "set L = {p. \<exists>s. s \<in> set (processors net) \<and> isSink (processorAt net s)
                \<and> (p, s) \<in> ?E\<^sup>*}"
  proof (intro equalityI subsetI)
    fix x assume "x \<in> set L"
    with reach show "x \<in> {p. \<exists>s. s \<in> set (processors net) \<and> isSink (processorAt net s)
                \<and> (p, s) \<in> ?E\<^sup>*}" by auto
  next
    fix x assume "x \<in> {p. \<exists>s. s \<in> set (processors net) \<and> isSink (processorAt net s)
                \<and> (p, s) \<in> ?E\<^sup>*}"
    then obtain s where s: "s \<in> set ?sinks" and xs: "(x, s) \<in> ?E\<^sup>*" by auto
    from closed SL have cl: "\<forall>x \<in> S. ?E\<inverse> `` {x} \<subseteq> S" by simp
    from closed_upstream [OF cl xs] s sinks SL show "x \<in> set L" by auto
  qed
  have ord: "acyclic ?E \<longrightarrow> respectsDependencies ?E L \<and> upstreamListedBefore ?E L"
  proof
    assume ac: "acyclic ?E"
    have pre: "orderPre ?E (set ?sinks) ({}, [])"
      by (simp add: orderPre_def finishedInOrder_def running_def)
    from traverse_orderPost(2) [OF r ac pre] have fin: "finishedInOrder ?E L"
      by (simp add: orderPost_def)
    from finishedInOrder_respects [OF fin dist] finishedInOrder_listed [OF fin]
    show "respectsDependencies ?E L \<and> upstreamListedBefore ?E L" by simp
  qed
  from res dist set_eq ord show ?thesis unfolding E by blast
qed

lemma respectsDependencies_subset:
  assumes "respectsDependencies E xs" and "E' \<subseteq> E"
  shows "respectsDependencies E' xs"
proof -
  from assms(2) have "E'\<^sup>+ \<subseteq> E\<^sup>+" by (rule trancl_mono_subset)
  with assms(1) show ?thesis unfolding respectsDependencies_def by blast
qed

lemma upstreamListedBefore_subset:
  assumes "upstreamListedBefore E xs" and "E' \<subseteq> E"
  shows "upstreamListedBefore E' xs"
proof -
  from assms(2) have "E'\<^sup>+ \<subseteq> E\<^sup>+" by (rule trancl_mono_subset)
  with assms(1) show ?thesis unfolding upstreamListedBefore_def by blast
qed

lemma acyclic_increasing:
  assumes "E \<subseteq> {(a, b). a < (b::nat)}"
  shows "acyclic E"
proof -
  have "acyclic less_than" by (simp add: wf_acyclic)
  moreover have "E \<subseteq> less_than" using assms by auto
  ultimately show ?thesis by (rule acyclic_subset)
qed

subsection \<open>The concrete networks\<close>

lemma feedback_sort: "topologicalSort feedbackNetwork = Some [1, 0, 2]"
  by (simp add: topologicalSort_def topologicalSortWith_def feedbackNetwork_def
      exampleProcessor_def upstreamProcessors_def getInports_def getConnectedOutports_def
      getInport_def getOutport_def getProcessor_def)

lemma feedback_attached: "connectionsAttached feedbackNetwork"
  by (simp add: connectionsAttached_def feedbackNetwork_def exampleProcessor_def
      getInports_def getInport_def getProcessor_def)

lemma chain_attached: "connectionsAttached chainNetwork"
  by (simp add: connectionsAttached_def chainNetwork_def feedbackNetwork_def
      exampleProcessor_def getInports_def getInport_def getProcessor_def)

lemma feedback_active_deps:
  "dependencies feedbackNetwork (isConnectionActive feedbackNetwork) = {(0, 1), (0, 2)}"
  by (simp add: dependencies_def feedbackNetwork_def getInport_def getOutport_def
      getProcessor_def)

lemma feedback_active_acyclic:
  "acyclic (dependencies feedbackNetwork (isConnectionActive feedbackNetwork))"
  by (rule acyclic_increasing) (simp add: feedback_active_deps)

lemma chain_deps:
  "dependencies chainNetwork (\<lambda>p from to. True) = {(0, 1), (1, 2)}"
  by (simp add: dependencies_def chainNetwork_def feedbackNetwork_def getInport_def
      getOutport_def getProcessor_def)

lemma chain_acyclic: "acyclic (dependencies chainNetwork (\<lambda>p from to. True))"
  by (rule acyclic_increasing) (simp add: chain_deps)

text \<open>
  Claim C1, as stated, fails for \<open>topologicalSort\<close>: in the feedback network every
  connection is attached to its processor, the active connections are acyclic and Source
  is an active upstream dependency of Filter, yet \<open>topologicalSort\<close>, which follows the
  inactive feedback connection too, puts Filter before Source.
\<close>

theorem topologicalSort_feedback_counterexample:
  "connectionsAttached feedbackNetwork
   \<and> acyclic (dependencies feedbackNetwork (isConnectionActive feedbackNetwork))
   \<and> topologicalSort feedbackNetwork = Some [1, 0, 2]
   \<and> (0, 1) \<in> (dependencies feedbackNetwork (isConnectionActive feedbackNetwork))\<^sup>+
   \<and> \<not> respectsDependencies
          (dependencies feedbackNetwork (isConnectionActive feedbackNetwork)) [1, 0, 2]"
proof (intro conjI)
  show "connectionsAttached feedbackNetwork" by (rule feedback_attached)
  show "acyclic (dependencies feedbackNetwork (isConnectionActive feedbackNetwork))"
    by (rule feedback_active_acyclic)
  show "topologicalSort feedbackNetwork = Some [1, 0, 2]"
    by (rule feedback_sort)
  show e: "(0, 1) \<in> (dependencies feedbackNetwork (isConnectionActive feedbackNetwork))\<^sup>+"
    by (rule r_into_trancl) (simp add: feedback_active_deps)
  show "\<not> respectsDependencies
          (dependencies feedbackNetwork (isConnectionActive feedbackNetwork)) [1, 0, 2]"
  proof
    assume "respectsDependencies
          (dependencies feedbackNetwork (isConnectionActive feedbackNetwork)) [1, 0, 2]"
    then have "\<And>i j. i < length [1::nat, 0, 2] \<Longrightarrow> j < length [1::nat, 0, 2] \<Longrightarrow>
        ([1::nat, 0, 2] ! j, [1::nat, 0, 2] ! i)
          \<in> (dependencies feedbackNetwork (isConnectionActive feedbackNetwork))\<^sup>+ \<Longrightarrow> j < i"
      unfolding respectsDependencies_def by blast
    from this [of 0 1] e show False by simp
  qed
qed

text \<open>
  Claim C1, amended. In a network whose connections are attached to its processors: when
  the connections that \<open>isConnectionActive\<close> accepts form an acyclic graph,
  \<open>topologicalSortFiltered\<close> returns a list in which every processor stands after every
  processor of its transitive upstream dependencies through active connections, and all
  of these are in the list. When all connections form an acyclic graph,
  \<open>topologicalSort\<close> returns a list with that order for the dependencies through any
  connection, and so for those through active connections.
\<close>

theorem topologicalSort_respects_dependencies:
  "connectionsAttached net \<Longrightarrow>
   (acyclic (dependencies net (isConnectionActive net)) \<longrightarrow>
      (\<exists>sortedVec. topologicalSortFiltered net = Some sortedVec
         \<and> respectsDependencies (dependencies net (isConnectionActive net)) sortedVec
         \<and> upstreamListedBefore (dependencies net (isConnectionActive net)) sortedVec))
   \<and> (acyclic (dependencies net (\<lambda>p from to. True)) \<longrightarrow>
      (\<exists>sortedVec. topologicalSort net = Some sortedVec
         \<and> respectsDependencies (dependencies net (\<lambda>p from to. True)) sortedVec
         \<and> upstreamListedBefore (dependencies net (\<lambda>p from to. True)) sortedVec
         \<and> respectsDependencies (dependencies net (isConnectionActive net)) sortedVec
         \<and> upstreamListedBefore (dependencies net (isConnectionActive net)) sortedVec))"
proof (intro conjI impI)
  assume att: "connectionsAttached net"
    and "acyclic (dependencies net (isConnectionActive net))"
  with topologicalSortWith_properties [OF att, of "isConnectionActive net"]
  show "\<exists>sortedVec. topologicalSortFiltered net = Some sortedVec
         \<and> respectsDependencies (dependencies net (isConnectionActive net)) sortedVec
         \<and> upstreamListedBefore (dependencies net (isConnectionActive net)) sortedVec"
    by (auto simp: topologicalSortFiltered_def)
next
  assume att: "connectionsAttached net"
    and "acyclic (dependencies net (\<lambda>p from to. True))"
  with topologicalSortWith_properties [OF att, of "\<lambda>p from to. True"]
  obtain sortedVec where s: "topologicalSort net = Some sortedVec"
    and r: "respectsDependencies (dependencies net (\<lambda>p from to. True)) sortedVec"
    and u: "upstreamListedBefore (dependencies net (\<lambda>p from to. True)) sortedVec"
    by (auto simp: topologicalSort_def)
  from respectsDependencies_subset [OF r dependencies_mono]
  have r': "respectsDependencies (dependencies net (isConnectionActive net)) sortedVec" .
  from upstreamListedBefore_subset [OF u dependencies_mono]
  have u': "upstreamListedBefore (dependencies net (isConnectionActive net)) sortedVec" .
  from s r u r' u' show "\<exists>sortedVec. topologicalSort net = Some sortedVec
         \<and> respectsDependencies (dependencies net (\<lambda>p from to. True)) sortedVec
         \<and> upstreamListedBefore (dependencies net (\<lambda>p from to. True)) sortedVec
         \<and> respectsDependencies (dependencies net (isConnectionActive net)) sortedVec
         \<and> upstreamListedBefore (dependencies net (isConnectionActive net)) sortedVec"
    by blast
qed

theorem topologicalSort_respects_dependencies_witness:
  "connectionsAttached feedbackNetwork
   \<and> acyclic (dependencies feedbackNetwork (isConnectionActive feedbackNetwork))
   \<and> (\<exists>sortedVec. topologicalSortFiltered feedbackNetwork = Some sortedVec
         \<and> respectsDependencies
              (dependencies feedbackNetwork (isConnectionActive feedbackNetwork)) sortedVec
         \<and> upstreamListedBefore
              (dependencies feedbackNetwork (isConnectionActive feedbackNetwork)) sortedVec)
   \<and> connectionsAttached chainNetwork
   \<and> acyclic (dependencies chainNetwork (\<lambda>p from to. True))
   \<and> (\<exists>sortedVec. topologicalSort chainNetwork = Some sortedVec
         \<and> respectsDependencies (dependencies chainNetwork (\<lambda>p from to. True)) sortedVec
         \<and> upstreamListedBefore (dependencies chainNetwork (\<lambda>p from to. True)) sortedVec)"
  using topologicalSort_respects_dependencies [OF feedback_attached]
        topologicalSort_respects_dependencies [OF chain_attached]
        feedback_active_acyclic chain_acyclic feedback_attached chain_attached
  by blast



end
